theory Spec2Isabelle
  imports Main "HOL-Library.AList"
begin

section \<open>Strings of the host language\<close>

text \<open>
  Paths, patterns and lines are JavaScript strings. They are modelled as lists of
  8-bit characters, one character standing for one code unit below 256.  The fixed
  Japanese and emoji texts of the generator are written as their UTF-8 bytes; they are
  only ever concatenated, never matched.
\<close>

text \<open>\<^verbatim>\<open>s.split(c)\<close> for a one-character separator: never the empty array.\<close>

fun split_on :: "char \<Rightarrow> string \<Rightarrow> string list" where
  "split_on c [] = [[]]"
| "split_on c (x # xs) =
     (if x = c then [] # split_on c xs
      else (case split_on c xs of [] \<Rightarrow> [[x]] | y # ys \<Rightarrow> (x # y) # ys))"

text \<open>\<^verbatim>\<open>parts.join(sep)\<close>.\<close>

fun join_with :: "string \<Rightarrow> string list \<Rightarrow> string" where
  "join_with sep [] = []"
| "join_with sep [x] = x"
| "join_with sep (x # y # ys) = x @ sep @ join_with sep (y # ys)"

text \<open>\<^verbatim>\<open>parts.pop() || ''\<close>: the last element, the empty string for none.\<close>

definition pop_or_empty :: "string list \<Rightarrow> string" where
  "pop_or_empty parts = (case rev parts of [] \<Rightarrow> [] | x # _ \<Rightarrow> x)"

text \<open>The array that \<^verbatim>\<open>parts.pop()\<close> leaves behind.\<close>

definition after_pop :: "string list \<Rightarrow> string list" where
  "after_pop parts = butlast parts"

definition startsWith :: "string \<Rightarrow> string \<Rightarrow> bool" where
  "startsWith s p = (take (length p) s = p)"

definition endsWith :: "string \<Rightarrow> string \<Rightarrow> bool" where
  "endsWith s p = (length p \<le> length s \<and> drop (length s - length p) s = p)"

text \<open>White space and line terminators below 256, as \<^verbatim>\<open>trim\<close> and \<^verbatim>\<open>\s\<close> see them.\<close>

definition is_space :: "char \<Rightarrow> bool" where
  "is_space c = (of_char c \<in> {9, 10, 11, 12, 13, 32, 160 :: nat})"

definition trim :: "string \<Rightarrow> string" where
  "trim s = rev (dropWhile is_space (rev (dropWhile is_space s)))"

definition is_digit :: "char \<Rightarrow> bool" where
  "is_digit c = (48 \<le> (of_char c :: nat) \<and> (of_char c :: nat) \<le> 57)"

definition is_word_char :: "char \<Rightarrow> bool" where
  "is_word_char c =
     (let n = (of_char c :: nat)
      in (48 \<le> n \<and> n \<le> 57) \<or> (65 \<le> n \<and> n \<le> 90) \<or> (97 \<le> n \<and> n \<le> 122) \<or> n = 95)"

definition is_line_terminator :: "char \<Rightarrow> bool" where
  "is_line_terminator c = (of_char c \<in> {10, 13 :: nat})"

text \<open>The value of a string of decimal digits.\<close>

definition digits_value :: "string \<Rightarrow> int" where
  "digits_value ds = foldl (\<lambda>n c. 10 * n + (of_char c - 48)) 0 ds"

section \<open>Errors\<close>

text \<open>
  \<open>SyntaxError\<close> is what \<^verbatim>\<open>new RegExp\<close> throws on a malformed source, \<open>TypeError\<close> what
  a strict-mode assignment to a property of a primitive throws, \<open>FetchError\<close> the
  rejection of the content-fetch collaborator.  \<open>Unmodelled\<close> is no outcome of the
  program: it marks regular-expression syntax outside the modelled fragment
  (back references, \<^verbatim>\<open>\c\<close>, \<^verbatim>\<open>\x\<close>, \<^verbatim>\<open>\u\<close> escapes, \<^verbatim>\<open>(?\<close> groups), about which
  nothing is claimed.
\<close>

datatype error = SyntaxError | TypeError | FetchError | Unmodelled

fun some_js :: "('a \<Rightarrow> error + bool) \<Rightarrow> 'a list \<Rightarrow> error + bool" where
  "some_js f [] = Inr False"
| "some_js f (x # xs) =
     (case f x of Inl e \<Rightarrow> Inl e | Inr True \<Rightarrow> Inr True | Inr False \<Rightarrow> some_js f xs)"

fun filter_js :: "('a \<Rightarrow> error + bool) \<Rightarrow> 'a list \<Rightarrow> error + 'a list" where
  "filter_js f [] = Inr []"
| "filter_js f (x # xs) =
     (case f x of Inl e \<Rightarrow> Inl e
      | Inr b \<Rightarrow> (case filter_js f xs of Inl e \<Rightarrow> Inl e
                  | Inr ys \<Rightarrow> Inr (if b then x # ys else ys)))"

section \<open>The regular expressions of the host language\<close>

text \<open>
  \<^verbatim>\<open>matchPattern\<close> hands a source text to \<^verbatim>\<open>new RegExp\<close> and calls \<^verbatim>\<open>test\<close>.  The
  model follows the ECMAScript grammar without flags, with the web-compatibility
  rules every engine applies: \<^verbatim>\<open>]\<close>, \<^verbatim>\<open>}\<close> and a \<^verbatim>\<open>{\<close> that opens no quantifier are
  literal; a quantifier with nothing to repeat, an unterminated class or group, an
  unmatched \<^verbatim>\<open>)\<close>, a class range out of order and a trailing backslash are syntax
  errors.
\<close>

datatype citem =
    CChar char | CRange char char
  | CDigit bool | CWord bool | CSpace bool

datatype re =
    REmpty | RChar char | RAny | RClass bool "citem list"
  | RBol | REol | RWordB bool
  | RSeq re re | RAlt re re
  | RRep nat "nat option" re

subsection \<open>Parsing\<close>

text \<open>A class escape after the backslash, inside brackets.\<close>

definition class_escape :: "char \<Rightarrow> error + citem" where
  "class_escape e =
     (if e = CHR ''d'' then Inr (CDigit True) else if e = CHR ''D'' then Inr (CDigit False)
      else if e = CHR ''w'' then Inr (CWord True) else if e = CHR ''W'' then Inr (CWord False)
      else if e = CHR ''s'' then Inr (CSpace True) else if e = CHR ''S'' then Inr (CSpace False)
      else if e = CHR ''b'' then Inr (CChar (char_of (8::nat)))
      else if e = CHR ''f'' then Inr (CChar (char_of (12::nat)))
      else if e = CHR ''n'' then Inr (CChar (char_of (10::nat)))
      else if e = CHR ''r'' then Inr (CChar (char_of (13::nat)))
      else if e = CHR ''t'' then Inr (CChar (char_of (9::nat)))
      else if e = CHR ''v'' then Inr (CChar (char_of (11::nat)))
      else if e \<in> set ''cxu'' \<or> is_digit e then Inl Unmodelled
      else Inr (CChar e))"

text \<open>
  The atoms of a class up to its closing bracket, each with a flag that tells an
  unescaped dash, and the number of characters read, the bracket included.
\<close>

fun class_tokens :: "string \<Rightarrow> error + ((citem \<times> bool) list \<times> nat)" where
  "class_tokens [] = Inl SyntaxError"
| "class_tokens (c # rest) =
     (if c = CHR '']'' then Inr ([], 1)
      else if c = CHR 0x5C then
        (case rest of
           [] \<Rightarrow> Inl SyntaxError
         | e # rest' \<Rightarrow>
             (case class_escape e of
                Inl err \<Rightarrow> Inl err
              | Inr it \<Rightarrow>
                  (case class_tokens rest' of
                     Inl err \<Rightarrow> Inl err
                   | Inr (ts, n) \<Rightarrow> Inr ((it, False) # ts, n + 2))))
      else
        (case class_tokens rest of
           Inl err \<Rightarrow> Inl err
         | Inr (ts, n) \<Rightarrow> Inr ((CChar c, c = CHR ''-'') # ts, n + 1)))"

text \<open>
  Ranges: an atom, an unescaped dash and another atom form a range; of two
  characters out of order it is a syntax error, with a class escape on either side the
  three stand for themselves.
\<close>

fun class_ranges :: "(citem \<times> bool) list \<Rightarrow> error + citem list" where
  "class_ranges ((a, da) # (d, True) # (b, db) # rest) =
     (case class_ranges rest of
        Inl err \<Rightarrow> Inl err
      | Inr its \<Rightarrow>
          (case (a, b) of
             (CChar x, CChar y) \<Rightarrow>
               (if (of_char y :: nat) < of_char x then Inl SyntaxError
                else Inr (CRange x y # its))
           | _ \<Rightarrow> Inr (a # d # b # its)))"
| "class_ranges ((a, da) # rest) =
     (case class_ranges rest of Inl err \<Rightarrow> Inl err | Inr its \<Rightarrow> Inr (a # its))"
| "class_ranges [] = Inr []"

text \<open>The text after an opening bracket: the class and the characters read.\<close>

definition parse_class :: "string \<Rightarrow> error + (re \<times> nat)" where
  "parse_class s =
     (let neg = (case s of [] \<Rightarrow> False | c # _ \<Rightarrow> c = CHR ''^'');
          body = (if neg then drop 1 s else s)
      in case class_tokens body of
           Inl err \<Rightarrow> Inl err
         | Inr (ts, n) \<Rightarrow>
             (case class_ranges ts of
                Inl err \<Rightarrow> Inl err
              | Inr its \<Rightarrow> Inr (RClass neg its, n + (if neg then 1 else 0))))"

text \<open>
  The text after an opening brace, when it spells a quantifier \<^verbatim>\<open>{n}\<close>, \<^verbatim>\<open>{n,}\<close> or
  \<^verbatim>\<open>{n,m}\<close>: the bounds and the characters read, the closing brace included.
\<close>

definition parse_braces :: "string \<Rightarrow> (nat \<times> nat option \<times> nat) option" where
  "parse_braces s =
     (let ds = takeWhile is_digit s; r = dropWhile is_digit s
      in if ds = [] then None
         else (case r of
                 [] \<Rightarrow> None
               | c # r' \<Rightarrow>
                   if c = CHR ''}'' then Some (nat (digits_value ds), Some (nat (digits_value ds)), length ds + 1)
                   else if c = CHR '','' then
                     (let es = takeWhile is_digit r'; q = dropWhile is_digit r'
                      in (case q of
                            [] \<Rightarrow> None
                          | c' # _ \<Rightarrow>
                              if c' = CHR ''}'' then
                                Some (nat (digits_value ds),
                                      (if es = [] then None else Some (nat (digits_value es))),
                                      length ds + length es + 2)
                              else None))
                   else None))"

text \<open>
  One open group or the top level: the finished alternatives, the terms of the current
  alternative, and the atom that a quantifier may still follow.
\<close>

datatype frame = Frame "re option" re "re option"

definition empty_frame :: frame where
  "empty_frame = Frame None REmpty None"

fun flush :: "frame \<Rightarrow> re" where
  "flush (Frame alts sq None) = sq"
| "flush (Frame alts sq (Some a)) = RSeq sq a"

fun push_atom :: "frame \<Rightarrow> re \<Rightarrow> frame" where
  "push_atom (Frame alts sq lst) a = Frame alts (flush (Frame alts sq lst)) (Some a)"

fun push_assertion :: "frame \<Rightarrow> re \<Rightarrow> frame" where
  "push_assertion (Frame alts sq lst) a = Frame alts (RSeq (flush (Frame alts sq lst)) a) None"

fun close_frame :: "frame \<Rightarrow> re" where
  "close_frame (Frame None sq lst) = flush (Frame None sq lst)"
| "close_frame (Frame (Some a) sq lst) = RAlt a (flush (Frame (Some a) sq lst))"

fun next_alternative :: "frame \<Rightarrow> frame" where
  "next_alternative f = Frame (Some (close_frame f)) REmpty None"

fun quantify :: "frame \<Rightarrow> nat \<Rightarrow> nat option \<Rightarrow> frame option" where
  "quantify (Frame alts sq None) n m = None"
| "quantify (Frame alts sq (Some a)) n m = Some (Frame alts (RSeq sq (RRep n m a)) None)"

text \<open>
  The question mark that makes the quantifier before it lazy: the number of characters
  it takes.
\<close>

definition lazy_mark :: "string \<Rightarrow> nat" where
  "lazy_mark s = (if startsWith s ''?'' then 1 else 0)"

text \<open>An escape outside brackets: an assertion or an atom.\<close>

definition atom_escape :: "char \<Rightarrow> error + (re \<times> bool)" where
  "atom_escape e =
     (if e = CHR ''b'' then Inr (RWordB True, False)
      else if e = CHR ''B'' then Inr (RWordB False, False)
      else (case class_escape e of
              Inl err \<Rightarrow> Inl err
            | Inr (CChar c) \<Rightarrow> Inr (RChar c, True)
            | Inr it \<Rightarrow> Inr (RClass False [it], True)))"

function parse_re :: "string \<Rightarrow> frame list \<Rightarrow> frame \<Rightarrow> error + re" where
  "parse_re [] st f = (if st = [] then Inr (close_frame f) else Inl SyntaxError)"
| "parse_re (c # rest) st f =
     (if c = CHR ''('' then
        (if startsWith rest ''?'' then Inl Unmodelled
         else parse_re rest (f # st) empty_frame)
      else if c = CHR '')'' then
        (case st of
           [] \<Rightarrow> Inl SyntaxError
         | g # st' \<Rightarrow> parse_re rest st' (push_atom g (close_frame f)))
      else if c = CHR ''|'' then parse_re rest st (next_alternative f)
      else if c = CHR ''^'' then parse_re rest st (push_assertion f RBol)
      else if c = CHR ''$'' then parse_re rest st (push_assertion f REol)
      else if c = CHR ''.'' then parse_re rest st (push_atom f RAny)
      else if c = CHR ''*'' then
        (case quantify f 0 None of
           None \<Rightarrow> Inl SyntaxError
         | Some f' \<Rightarrow> parse_re (drop (lazy_mark rest) rest) st f')
      else if c = CHR ''+'' then
        (case quantify f 1 None of
           None \<Rightarrow> Inl SyntaxError
         | Some f' \<Rightarrow> parse_re (drop (lazy_mark rest) rest) st f')
      else if c = CHR ''?'' then
        (case quantify f 0 (Some 1) of
           None \<Rightarrow> Inl SyntaxError
         | Some f' \<Rightarrow> parse_re (drop (lazy_mark rest) rest) st f')
      else if c = CHR ''{'' then
        (case parse_braces rest of
           None \<Rightarrow> parse_re rest st (push_atom f (RChar c))
         | Some (n, m, k) \<Rightarrow>
             (if (case m of None \<Rightarrow> False | Some m' \<Rightarrow> m' < n) then Inl SyntaxError
              else (case quantify f n m of
                      None \<Rightarrow> Inl SyntaxError
                    | Some f' \<Rightarrow> parse_re (drop (k + lazy_mark (drop k rest)) rest) st f')))
      else if c = CHR ''['' then
        (case parse_class rest of
           Inl err \<Rightarrow> Inl err
         | Inr (cls, k) \<Rightarrow> parse_re (drop k rest) st (push_atom f cls))
      else if c = CHR 0x5C then
        (case rest of
           [] \<Rightarrow> Inl SyntaxError
         | e # rest' \<Rightarrow>
             (case atom_escape e of
                Inl err \<Rightarrow> Inl err
              | Inr (a, quantifiable) \<Rightarrow>
                  parse_re rest' st (if quantifiable then push_atom f a else push_assertion f a)))
      else parse_re rest st (push_atom f (RChar c)))"
  by pat_completeness auto
termination
  by (relation "measure (\<lambda>(s, st, f). length s)") auto

text \<open>\<^verbatim>\<open>new RegExp(source)\<close>.\<close>

definition new_RegExp :: "string \<Rightarrow> error + re" where
  "new_RegExp source = parse_re source [] empty_frame"

subsection \<open>Matching\<close>

text \<open>
  A position in the subject string: the character before it, if any, and the text
  after it.  A matcher maps the positions it is started at to the positions it can
  end at.
\<close>

type_synonym pos = "char option \<times> string"

fun class_member :: "char \<Rightarrow> citem \<Rightarrow> bool" where
  "class_member x (CChar c) = (x = c)"
| "class_member x (CRange lo hi) =
     ((of_char lo :: nat) \<le> of_char x \<and> (of_char x :: nat) \<le> of_char hi)"
| "class_member x (CDigit b) = (is_digit x = b)"
| "class_member x (CWord b) = (is_word_char x = b)"
| "class_member x (CSpace b) = (is_space x = b)"

text \<open>One character that satisfies \<open>P\<close> is consumed.\<close>

fun eat :: "(char \<Rightarrow> bool) \<Rightarrow> pos \<Rightarrow> pos list" where
  "eat P (prev, []) = []"
| "eat P (prev, x # xs) = (if P x then [(Some x, xs)] else [])"

fun at_word_boundary :: "pos \<Rightarrow> bool" where
  "at_word_boundary (prev, rest) =
     ((case prev of None \<Rightarrow> False | Some a \<Rightarrow> is_word_char a)
      \<noteq> (case rest of [] \<Rightarrow> False | b # _ \<Rightarrow> is_word_char b))"

text \<open>
  One more iteration of a quantified atom beyond the required ones: the engine
  rejects an iteration that consumes nothing, so each one ends strictly further on.
\<close>

definition advance :: "(pos list \<Rightarrow> pos list) \<Rightarrow> pos list \<Rightarrow> pos list" where
  "advance m ps =
     concat (map (\<lambda>p. filter (\<lambda>q. length (snd q) < length (snd p)) (m [p])) ps)"

primrec required :: "nat \<Rightarrow> (pos list \<Rightarrow> pos list) \<Rightarrow> pos list \<Rightarrow> pos list" where
  "required 0 m ps = ps"
| "required (Suc n) m ps = required n m (m ps)"

primrec optional :: "nat \<Rightarrow> (pos list \<Rightarrow> pos list) \<Rightarrow> pos list \<Rightarrow> pos list" where
  "optional 0 m ps = ps"
| "optional (Suc n) m ps = remdups (ps @ optional n m (advance m ps))"

text \<open>
  The longest text still ahead of any position: no run has more advancing iterations
  than that.
\<close>

definition ahead :: "pos list \<Rightarrow> nat" where
  "ahead ps = foldr (\<lambda>p n. max (length (snd p)) n) ps 0"

primrec run :: "re \<Rightarrow> pos list \<Rightarrow> pos list" where
  "run REmpty ps = ps"
| "run (RChar c) ps = concat (map (eat (\<lambda>x. x = c)) ps)"
| "run RAny ps = concat (map (eat (\<lambda>x. \<not> is_line_terminator x)) ps)"
| "run (RClass neg its) ps = concat (map (eat (\<lambda>x. list_ex (class_member x) its \<noteq> neg)) ps)"
| "run RBol ps = filter (\<lambda>p. fst p = None) ps"
| "run REol ps = filter (\<lambda>p. snd p = []) ps"
| "run (RWordB b) ps = filter (\<lambda>p. at_word_boundary p = b) ps"
| "run (RSeq a b) ps = run b (run a ps)"
| "run (RAlt a b) ps = remdups (run a ps @ run b ps)"
| "run (RRep n m a) ps =
     (let qs = required n (run a) ps
      in optional (case m of None \<Rightarrow> ahead qs | Some m' \<Rightarrow> min (m' - n) (ahead qs)) (run a) qs)"

text \<open>Every position of a string, from the start to the end.\<close>

fun positions :: "char option \<Rightarrow> string \<Rightarrow> pos list" where
  "positions prev [] = [(prev, [])]"
| "positions prev (x # xs) = (prev, x # xs) # positions (Some x) xs"

text \<open>\<^verbatim>\<open>regex.test(s)\<close> of a regular expression without flags: a match may start anywhere.\<close>

definition regex_test :: "re \<Rightarrow> string \<Rightarrow> bool" where
  "regex_test r s = (run r (positions None s) \<noteq> [])"

section \<open>The pattern matcher\<close>

text \<open>\<^verbatim>\<open>.replace(/\./g, '\\.')\<close>, \<^verbatim>\<open>.replace(/\*/g, '.*')\<close>, \<^verbatim>\<open>.replace(/\?/g, '.')\<close>.\<close>

definition replace_all :: "char \<Rightarrow> string \<Rightarrow> string \<Rightarrow> string" where
  "replace_all c new s = concat (map (\<lambda>x. if x = c then new else [x]) s)"

definition regexPattern :: "string \<Rightarrow> string" where
  "regexPattern pattern =
     replace_all (CHR ''?'') ''.''
       (replace_all (CHR ''*'') ''.*''
         (replace_all (CHR ''.'') [CHR 0x5C, CHR ''.''] pattern))"

definition fileName_of :: "string \<Rightarrow> string" where
  "fileName_of filePath = pop_or_empty (split_on (CHR ''/'') filePath)"

definition matchPattern :: "string \<Rightarrow> string \<Rightarrow> error + bool" where
  "matchPattern pattern filePath =
     (if pattern = [] then Inr False
      else if pattern = filePath then Inr True
      else if pattern = fileName_of filePath then Inr True
      else (case new_RegExp (''^'' @ regexPattern pattern @ ''$'') of
              Inl err \<Rightarrow> Inl err
            | Inr regex \<Rightarrow>
                Inr (regex_test regex filePath \<or> regex_test regex (fileName_of filePath))))"

text \<open>The callback that \<^verbatim>\<open>shouldIgnore\<close> gives to \<^verbatim>\<open>some\<close>.\<close>

definition rule_fires :: "string \<Rightarrow> string \<Rightarrow> error + bool" where
  "rule_fires filePath pattern =
     (if startsWith pattern ''#'' \<or> trim pattern = [] then Inr False
      else if startsWith pattern ''!'' then
        (case matchPattern (drop 1 pattern) filePath of
           Inl err \<Rightarrow> Inl err
         | Inr b \<Rightarrow> Inr (\<not> b))
      else matchPattern pattern filePath)"

definition shouldIgnore :: "string \<Rightarrow> string list \<Rightarrow> error + bool" where
  "shouldIgnore filePath ignorePatterns =
     (if filePath = ''package-lock.json'' \<or> endsWith filePath ''/package-lock.json'' then Inr True
      else if ignorePatterns = [] then Inr False
      else some_js (rule_fires filePath) ignorePatterns)"

section \<open>The tree builder\<close>

text \<open>
  An entry of the provider's flat listing.  Of its fields \<^verbatim>\<open>path\<close>, \<^verbatim>\<open>mode\<close>, \<^verbatim>\<open>type\<close>,
  \<^verbatim>\<open>sha\<close>, \<^verbatim>\<open>size\<close> and \<^verbatim>\<open>url\<close> the builder reads the path and the type only.
\<close>

record TreeItem =
  item_path :: string
  item_type :: string

text \<open>
  The builder creates one object per directory, keeps it in \<^verbatim>\<open>map\<close> under its path and
  later pushes onto its \<^verbatim>\<open>children\<close> array through that entry, while the same object
  may already sit in \<^verbatim>\<open>root\<close> or in another array.  A directory object is therefore
  referred to by its key; a file object is never changed after it is pushed and stands
  for itself.
\<close>

datatype node = DirNode string | FileNode string

text \<open>
  The state of one call: the \<^verbatim>\<open>root\<close> array; the own properties of \<^verbatim>\<open>map\<close> in the
  order they were created, each with the \<^verbatim>\<open>children\<close> array of the object it holds;
  whether the prototype of \<^verbatim>\<open>map\<close> has been replaced, which is what the assignment
  \<^verbatim>\<open>map['__proto__'] = ...\<close> does instead of creating a property; and whether a node
  has been pushed onto \<^verbatim>\<open>Object.prototype.children\<close>.
\<close>

record tree_state =
  root :: "node list"
  dirs :: "(string \<times> node list) list"
  proto :: bool
  polluted :: bool

definition init_state :: tree_state where
  "init_state = \<lparr>root = [], dirs = [], proto = False, polluted = False\<rparr>"

text \<open>\<^verbatim>\<open>maxDepth !== -1 && depth > maxDepth\<close> with \<^verbatim>\<open>depth = path.split('/').length\<close>.\<close>

definition depth_of :: "string \<Rightarrow> nat" where
  "depth_of p = length (split_on (CHR ''/'') p)"

definition too_deep :: "int \<Rightarrow> string \<Rightarrow> bool" where
  "too_deep maxDepth p = (maxDepth \<noteq> - 1 \<and> int (depth_of p) > maxDepth)"

text \<open>\<^verbatim>\<open>parts.pop(); parts.join('/')\<close>.\<close>

definition parentPath_of :: "string \<Rightarrow> string" where
  "parentPath_of p = join_with ''/'' (after_pop (split_on (CHR ''/'') p))"

text \<open>The body of the first loop: \<^verbatim>\<open>map[item.path] = {path, type: 'dir', children: []}\<close>.\<close>

definition create_dir :: "int \<Rightarrow> tree_state \<Rightarrow> TreeItem \<Rightarrow> tree_state" where
  "create_dir maxDepth st item =
     (if too_deep maxDepth (item_path item) then st
      else if item_path item = ''__proto__'' then st\<lparr>proto := True\<rparr>
      else st\<lparr>dirs := AList.update (item_path item) [] (dirs st)\<rparr>)"

text \<open>
  \<^verbatim>\<open>Object.values(map)\<close>, each object given by its key, which is its path: the
  properties whose names are array indices (canonical decimal numerals below
  \<open>2\<^sup>3\<^sup>2 - 1\<close>) come first in ascending numeric order, the others follow in the order
  of their creation.
\<close>

definition is_array_index :: "string \<Rightarrow> bool" where
  "is_array_index k =
     (k \<noteq> [] \<and> list_all is_digit k \<and> (k = ''0'' \<or> \<not> startsWith k ''0'')
      \<and> digits_value k < 4294967295)"

definition Object_values :: "(string \<times> 'v) list \<Rightarrow> string list" where
  "Object_values m =
     sort_key digits_value (filter is_array_index (map fst m))
     @ filter (\<lambda>k. \<not> is_array_index k) (map fst m)"

text \<open>
  The lines shared by the second and the third loop:
  \<^verbatim>\<open>if (parentPath === '') root.push(n); else if (map[parentPath]) map[parentPath].children.push(n)\<close>.
  A name that \<^verbatim>\<open>map\<close> does not own is looked up along the prototype chain.  What
  is found there is no node of the forest, and a push onto it leaves \<^verbatim>\<open>root\<close> and the
  arrays of the directory objects as they are.  Two cases differ from a plain miss.
  When the prototype is a directory object, \<^verbatim>\<open>map['path']\<close> and \<^verbatim>\<open>map['type']\<close> are
  its texts, and the assignment to \<^verbatim>\<open>.children\<close> of a text throws in module code.
  When the prototype is still \<^verbatim>\<open>Object.prototype\<close>, \<^verbatim>\<open>map['__proto__']\<close> is that
  object: the node is pushed onto \<^verbatim>\<open>Object.prototype.children\<close>, an array that every
  object without a \<^verbatim>\<open>children\<close> property of its own inherits from then on.
\<close>

definition attach :: "node \<Rightarrow> string \<Rightarrow> tree_state \<Rightarrow> error + tree_state" where
  "attach n parentPath st =
     (if parentPath = [] then Inr (st\<lparr>root := root st @ [n]\<rparr>)
      else (case map_of (dirs st) parentPath of
              Some cs \<Rightarrow> Inr (st\<lparr>dirs := AList.update parentPath (cs @ [n]) (dirs st)\<rparr>)
            | None \<Rightarrow>
                if proto st \<and> (parentPath = ''path'' \<or> parentPath = ''type'') then Inl TypeError
                else if \<not> proto st \<and> parentPath = ''__proto__'' then Inr (st\<lparr>polluted := True\<rparr>)
                else Inr st))"

text \<open>\<^verbatim>\<open>forEach\<close> with a body that may throw.\<close>

fun forEach_js :: "('a \<Rightarrow> 's \<Rightarrow> error + 's) \<Rightarrow> 'a list \<Rightarrow> 's \<Rightarrow> error + 's" where
  "forEach_js body [] st = Inr st"
| "forEach_js body (x # xs) st =
     (case body x st of Inl e \<Rightarrow> Inl e | Inr st' \<Rightarrow> forEach_js body xs st')"

definition wire_dir :: "string \<Rightarrow> tree_state \<Rightarrow> error + tree_state" where
  "wire_dir dir st = attach (DirNode dir) (parentPath_of dir) st"

definition add_file :: "int \<Rightarrow> TreeItem \<Rightarrow> tree_state \<Rightarrow> error + tree_state" where
  "add_file maxDepth item st =
     (if too_deep maxDepth (item_path item) then Inr st
      else attach (FileNode (item_path item)) (parentPath_of (item_path item)) st)"

text \<open>\<^verbatim>\<open>item => !shouldIgnore(item.path, ignorePatterns)\<close>.\<close>

definition not_ignored :: "string list \<Rightarrow> TreeItem \<Rightarrow> error + bool" where
  "not_ignored ignorePatterns item =
     (case shouldIgnore (item_path item) ignorePatterns of
        Inl e \<Rightarrow> Inl e
      | Inr b \<Rightarrow> Inr (\<not> b))"

text \<open>
  \<^verbatim>\<open>buildFileTree\<close>: the state when it returns.  The value returned is \<^verbatim>\<open>root\<close>, whose
  directory objects are read through \<open>dirs\<close>.
\<close>

definition buildFileTree :: "TreeItem list \<Rightarrow> string list \<Rightarrow> int \<Rightarrow> error + tree_state" where
  "buildFileTree items ignorePatterns maxDepth =
     (case filter_js (not_ignored ignorePatterns) (filter (\<lambda>item. item_type item = ''tree'') items) of
        Inl e \<Rightarrow> Inl e
      | Inr trees \<Rightarrow>
          (let st1 = foldl (create_dir maxDepth) init_state trees
           in case forEach_js wire_dir (Object_values (dirs st1)) st1 of
                Inl e \<Rightarrow> Inl e
              | Inr st2 \<Rightarrow>
                  (case filter_js (not_ignored ignorePatterns)
                          (filter (\<lambda>item. item_type item = ''blob'') items) of
                     Inl e \<Rightarrow> Inl e
                   | Inr blobs \<Rightarrow> forEach_js (add_file maxDepth) blobs st2)))"

text \<open>
  The nested value that the caller sees, as \<^verbatim>\<open>JSON.stringify\<close> reads it from \<^verbatim>\<open>root\<close>
  through the properties that the nodes own; a recursive walk in the same process reads
  the same as long as \<^verbatim>\<open>Object.prototype\<close> has no \<^verbatim>\<open>children\<close> array.  A walk visits at
  most one directory per level of nesting, and a child's path is longer than its
  parent's, so the walk is given one step more than the longest key has characters.
\<close>

datatype FileTree = FileTree (path: string) (type: string) (children: "FileTree list option")

fun read_node :: "nat \<Rightarrow> (string \<times> node list) list \<Rightarrow> node \<Rightarrow> FileTree option" where
  "read_node n m (FileNode p) = Some (FileTree p ''file'' None)"
| "read_node 0 m (DirNode p) = None"
| "read_node (Suc n) m (DirNode p) =
     (case map_of m p of
        None \<Rightarrow> None
      | Some cs \<Rightarrow>
          (case those (map (read_node n m) cs) of
             None \<Rightarrow> None
           | Some ts \<Rightarrow> Some (FileTree p ''dir'' (Some ts))))"

definition forest_of :: "tree_state \<Rightarrow> FileTree list option" where
  "forest_of st =
     those (map (read_node (Suc (foldr (\<lambda>kv n. max (length (fst kv)) n) (dirs st) 0)) (dirs st))
               (root st))"

subsection \<open>Notions for the statements about the tree\<close>

text \<open>
  The paths of the entries of one type that are neither ignored nor too deep, in the
  order of the input: the entries that the loop of that type acts on.
\<close>

definition kept_paths :: "string \<Rightarrow> TreeItem list \<Rightarrow> string list \<Rightarrow> int \<Rightarrow> string list" where
  "kept_paths ty items ignorePatterns maxDepth =
     map item_path
       (filter (\<lambda>item. item_type item = ty
                        \<and> shouldIgnore (item_path item) ignorePatterns = Inr False
                        \<and> \<not> too_deep maxDepth (item_path item)) items)"

fun node_path :: "node \<Rightarrow> string" where
  "node_path (DirNode p) = p"
| "node_path (FileNode p) = p"

fun is_file :: "node \<Rightarrow> bool" where
  "is_file (FileNode p) = True"
| "is_file (DirNode p) = False"

text \<open>No file stands before a directory.\<close>

fun dirs_before_files :: "node list \<Rightarrow> bool" where
  "dirs_before_files [] = True"
| "dirs_before_files (DirNode p # ns) = dirs_before_files ns"
| "dirs_before_files (FileNode p # ns) = list_all is_file ns"

text \<open>The same for the nested value: no node of type \<^verbatim>\<open>file\<close> before one that is none.\<close>

fun dirs_first :: "FileTree list \<Rightarrow> bool" where
  "dirs_first [] = True"
| "dirs_first (t # ts) =
     (if type t = ''file'' then list_all (\<lambda>u. type u = ''file'') ts else dirs_first ts)"

section \<open>The document assembler\<close>

subsection \<open>File types\<close>

text \<open>\<^verbatim>\<open>toLowerCase\<close> on code units below 256.\<close>

definition toLowerCase :: "string \<Rightarrow> string" where
  "toLowerCase s =
     map (\<lambda>c. let n = (of_char c :: nat)
              in if (65 \<le> n \<and> n \<le> 90) \<or> (192 \<le> n \<and> n \<le> 222 \<and> n \<noteq> 215)
                 then char_of (n + 32) else c) s"

definition codeExtensions :: "(string \<times> string) list" where
  "codeExtensions =
    [(''js'', ''javascript''), (''jsx'', ''javascript''), (''ts'', ''typescript''),
     (''tsx'', ''typescript''), (''py'', ''python''), (''rb'', ''ruby''),
     (''java'', ''java''), (''c'', ''c''), (''cpp'', ''cpp''), (''cs'', ''csharp''),
     (''go'', ''go''), (''rs'', ''rust''), (''php'', ''php''), (''swift'', ''swift''),
     (''kt'', ''kotlin''), (''scala'', ''scala''), (''dart'', ''dart''),
     (''sh'', ''bash''), (''bat'', ''batch''), (''ps1'', ''powershell''),
     (''sql'', ''sql''), (''r'', ''r''), (''m'', ''matlab''), (''pl'', ''perl''),
     (''lua'', ''lua''), (''ex'', ''elixir''), (''exs'', ''elixir''),
     (''erl'', ''erlang''), (''clj'', ''clojure''), (''hs'', ''haskell''),
     (''fs'', ''fsharp''), (''ml'', ''ocaml''), (''groovy'', ''groovy''),
     (''jl'', ''julia'')]"

definition markupExtensions :: "(string \<times> string) list" where
  "markupExtensions =
    [(''html'', ''html''), (''htm'', ''html''), (''xml'', ''xml''), (''css'', ''css''),
     (''scss'', ''scss''), (''sass'', ''sass''), (''less'', ''less''), (''svg'', ''svg''),
     (''md'', ''markdown''), (''markdown'', ''markdown''), (''json'', ''json''),
     (''yaml'', ''yaml''), (''yml'', ''yaml''), (''toml'', ''toml'')]"

definition docExtensions :: "(string \<times> string) list" where
  "docExtensions =
    [(''txt'', ''text''), (''pdf'', ''pdf''), (''doc'', ''word''), (''docx'', ''word''),
     (''xls'', ''excel''), (''xlsx'', ''excel''), (''ppt'', ''powerpoint''),
     (''pptx'', ''powerpoint''), (''odt'', ''openoffice''), (''ods'', ''openoffice''),
     (''odp'', ''openoffice'')]"

definition imageExtensions :: "(string \<times> string) list" where
  "imageExtensions =
    [(''jpg'', ''image''), (''jpeg'', ''image''), (''png'', ''image''),
     (''gif'', ''image''), (''bmp'', ''image''), (''tiff'', ''image''),
     (''webp'', ''image''), (''ico'', ''image'')]"

definition otherExtensions :: "(string \<times> string) list" where
  "otherExtensions =
    [(''zip'', ''archive''), (''rar'', ''archive''), (''tar'', ''archive''),
     (''gz'', ''archive''), (''7z'', ''archive''), (''exe'', ''executable''),
     (''dll'', ''binary''), (''so'', ''binary''), (''a'', ''binary''), (''o'', ''binary''),
     (''class'', ''binary''), (''jar'', ''binary''), (''war'', ''binary''),
     (''ear'', ''binary'')]"

definition configExtensions :: "(string \<times> string) list" where
  "configExtensions =
    [(''ini'', ''config''), (''conf'', ''config''), (''cfg'', ''config''),
     (''config'', ''config''), (''env'', ''config'')]"

text \<open>
  \<^verbatim>\<open>getFileType\<close>.  The tables are object literals, so an extension that names a member
  of \<^verbatim>\<open>Object.prototype\<close> finds that member instead of \<^verbatim>\<open>'unknown'\<close>; the only caller
  compares the result with texts, for which the two are the same.
\<close>

definition getFileType :: "string \<Rightarrow> string" where
  "getFileType filePath =
     (let extension = toLowerCase (pop_or_empty (split_on (CHR ''.'') filePath))
      in if endsWith filePath ''package.json'' then ''package-json''
         else if endsWith filePath ''tsconfig.json'' then ''tsconfig''
         else if endsWith filePath ''.gitignore'' then ''gitignore''
         else if endsWith filePath ''.GithubDocsignore'' then ''githubdocsignore''
         else if endsWith filePath ''Dockerfile'' then ''dockerfile''
         else if endsWith filePath ''docker-compose.yml'' \<or> endsWith filePath ''docker-compose.yaml''
           then ''docker-compose''
         else if endsWith filePath ''Makefile'' then ''makefile''
         else if endsWith filePath ''README.md'' then ''readme''
         else if endsWith filePath ''LICENSE'' then ''license''
         else (case map_of (codeExtensions @ markupExtensions @ docExtensions @ imageExtensions
                              @ otherExtensions @ configExtensions) extension of
                 Some t \<Rightarrow> t
               | None \<Rightarrow> ''unknown''))"

text \<open>The \<^verbatim>\<open>switch\<close> that picks the language of the code fence.\<close>

definition fence_language :: "string \<Rightarrow> string" where
  "fence_language fileType =
     (if fileType \<in> set [''javascript'', ''typescript'', ''python'', ''html'', ''css'', ''json'',
                          ''markdown'', ''yaml'']
      then fileType else [])"

subsection \<open>Line filtering\<close>

text \<open>\<^verbatim>\<open>lines.filter(line => !shouldIgnore(line, sourceIgnorePatterns))\<close>.\<close>

definition filteredLines :: "string list \<Rightarrow> string list \<Rightarrow> error + string list" where
  "filteredLines sourceIgnorePatterns lines =
     filter_js (\<lambda>line. case shouldIgnore line sourceIgnorePatterns of
                          Inl e \<Rightarrow> Inl e
                        | Inr b \<Rightarrow> Inr (\<not> b)) lines"

text \<open>The filtered content: untouched when there is no line rule.\<close>

definition filteredContent :: "string list \<Rightarrow> string \<Rightarrow> error + string" where
  "filteredContent sourceIgnorePatterns content =
     (if length sourceIgnorePatterns > 0 then
        (case filteredLines sourceIgnorePatterns (split_on (CHR 0x0A) content) of
           Inl e \<Rightarrow> Inl e
         | Inr ls \<Rightarrow> Inr (join_with [CHR 0x0A] ls))
      else Inr content)"

subsection \<open>Sections\<close>

definition heading :: "string \<Rightarrow> string" where
  "heading filePath = ''### '' @ filePath @ [CHR 0x0A, CHR 0x0A]"

text \<open>The section that the \<^verbatim>\<open>catch\<close> branch returns: the heading and a fixed notice.\<close>

definition failure_notice :: string where
  "failure_notice =
     ''> '' @ [CHR 0xE3, CHR 0x83, CHR 0x95, CHR 0xE3, CHR 0x82, CHR 0xA1, CHR 0xE3, CHR 0x82,
              CHR 0xA4, CHR 0xE3, CHR 0x83, CHR 0xAB, CHR 0xE5, CHR 0x86, CHR 0x85, CHR 0xE5,
              CHR 0xAE, CHR 0xB9, CHR 0xE3, CHR 0x81, CHR 0xAE, CHR 0xE5, CHR 0x8F, CHR 0x96,
              CHR 0xE5, CHR 0xBE, CHR 0x97, CHR 0xE3, CHR 0x81, CHR 0xAB, CHR 0xE5, CHR 0xA4,
              CHR 0xB1, CHR 0xE6, CHR 0x95, CHR 0x97, CHR 0xE3, CHR 0x81, CHR 0x97, CHR 0xE3,
              CHR 0x81, CHR 0xBE, CHR 0xE3, CHR 0x81, CHR 0x97, CHR 0xE3, CHR 0x81, CHR 0x9F,
              CHR 0xE3, CHR 0x80, CHR 0x82, CHR 0x0A, CHR 0x0A]"

definition failure_section :: "string \<Rightarrow> string" where
  "failure_section filePath = heading filePath @ failure_notice"

definition code_section :: "string \<Rightarrow> string \<Rightarrow> string" where
  "code_section filePath filteredContent' =
     heading filePath @ ''```'' @ fence_language (getFileType filePath) @ [CHR 0x0A]
       @ filteredContent' @ [CHR 0x0A] @ ''```'' @ [CHR 0x0A, CHR 0x0A]"

text \<open>
  \<^verbatim>\<open>generateFileContentMarkdown\<close>, with \<^verbatim>\<open>getFileContent\<close> as the function \<open>fetch\<close> from a
  path to the text or the rejection.  The whole body stands in a \<^verbatim>\<open>try\<close>, so whatever
  is thrown inside, by a rule or by the fetch, ends in the failure section.
\<close>

definition generateFileContentMarkdown ::
  "(string \<Rightarrow> error + string) \<Rightarrow> string \<Rightarrow> string list \<Rightarrow> string list \<Rightarrow> string" where
  "generateFileContentMarkdown fetch filePath ignorePatterns sourceIgnorePatterns =
     (case shouldIgnore filePath ignorePatterns of
        Inl e \<Rightarrow> failure_section filePath
      | Inr True \<Rightarrow> []
      | Inr False \<Rightarrow>
          (case fetch filePath of
             Inl e \<Rightarrow> failure_section filePath
           | Inr content \<Rightarrow>
               (case filteredContent sourceIgnorePatterns content of
                  Inl e \<Rightarrow> failure_section filePath
                | Inr filtered \<Rightarrow> code_section filePath filtered)))"

subsection \<open>The document\<close>

text \<open>\<^verbatim>\<open>flattenTree\<close>: parent before children, children in array order.\<close>

fun flattenTree :: "FileTree list \<Rightarrow> FileTree list" where
  "flattenTree [] = []"
| "flattenTree (FileTree p t cs # rest) =
     FileTree p t cs # (case cs of None \<Rightarrow> [] | Some ts \<Rightarrow> flattenTree ts) @ flattenTree rest"





section \<open>Properties of the string operations and the pattern matcher\<close>

lemma split_on_not_Nil: "split_on c s \<noteq> []"
  by (induction s) (auto split: list.splits)

lemma pop_or_empty_last: "parts \<noteq> [] \<Longrightarrow> pop_or_empty parts = last parts"
  by (cases parts rule: rev_cases) (auto simp: pop_or_empty_def)

lemma split_on_append:
  "split_on c (d @ c # n) = split_on c d @ split_on c n"
proof (induction d)
  case Nil
  show ?case by simp
next
  case (Cons x d)
  obtain y ys where "split_on c d = y # ys"
    using split_on_not_Nil [of c d] by (cases "split_on c d") auto
  with Cons show ?case by simp
qed

lemma split_on_no_sep: "c \<notin> set n \<Longrightarrow> split_on c n = [n]"
  by (induction n) auto

lemma split_on_parts: "part \<in> set (split_on c s) \<Longrightarrow> c \<notin> set part"
  by (induction s arbitrary: part) (auto split: if_splits list.splits)

lemma join_split_on: "join_with [c] (split_on c s) = s"
proof (induction s)
  case Nil
  show ?case by simp
next
  case (Cons x s)
  obtain y ys where ys: "split_on c s = y # ys"
    using split_on_not_Nil [of c s] by (cases "split_on c s") auto
  show ?case
  proof (cases "x = c")
    case True
    with Cons ys show ?thesis by simp
  next
    case False
    with Cons ys show ?thesis by (cases ys) auto
  qed
qed

lemma join_with_snoc:
  "xs \<noteq> [] \<Longrightarrow> join_with sep (xs @ [y]) = join_with sep xs @ sep @ y"
  by (induction sep xs rule: join_with.induct) auto

lemma fileName_of_append: "fileName_of (d @ CHR ''/'' # n) = fileName_of n"
  by (simp add: fileName_of_def split_on_append pop_or_empty_last split_on_not_Nil)

lemma fileName_of_plain: "CHR ''/'' \<notin> set n \<Longrightarrow> fileName_of n = n"
  by (simp add: fileName_of_def split_on_no_sep pop_or_empty_def)

lemma fileName_of_no_slash: "CHR ''/'' \<notin> set (fileName_of p)"
  using split_on_parts [of "last (split_on (CHR ''/'') p)" "CHR ''/''" p]
  by (simp add: fileName_of_def pop_or_empty_last split_on_not_Nil)

lemma path_decompose:
  "p = fileName_of p \<or> (\<exists>d. p = d @ CHR ''/'' # fileName_of p)"
proof -
  let ?parts = "split_on (CHR ''/'') p"
  have ne: "?parts \<noteq> []" by (rule split_on_not_Nil)
  then have parts: "?parts = butlast ?parts @ [last ?parts]" by simp
  have fn: "fileName_of p = last ?parts"
    by (simp add: fileName_of_def pop_or_empty_last ne)
  show ?thesis
  proof (cases "butlast ?parts = []")
    case True
    with parts have "?parts = [last ?parts]" by simp
    then have "join_with ''/'' ?parts = last ?parts" by (metis join_with.simps(2))
    then show ?thesis by (simp add: join_split_on fn)
  next
    case False
    have "join_with ''/'' ?parts = join_with ''/'' (butlast ?parts) @ ''/'' @ last ?parts"
      using join_with_snoc [OF False, of "''/''" "last ?parts"] parts by simp
    then have "p = join_with ''/'' (butlast ?parts) @ CHR ''/'' # fileName_of p"
      by (simp add: join_split_on fn)
    then show ?thesis by blast
  qed
qed

lemma endsWith_iff: "endsWith p suf \<longleftrightarrow> (\<exists>d. p = d @ suf)"
proof
  assume "endsWith p suf"
  then have "p = take (length p - length suf) p @ suf"
    by (metis append_take_drop_id endsWith_def)
  then show "\<exists>d. p = d @ suf" ..
next
  assume "\<exists>d. p = d @ suf"
  then show "endsWith p suf" by (auto simp: endsWith_def)
qed

lemma lock_file_basename:
  "fileName_of p = ''package-lock.json'' \<longleftrightarrow>
   p = ''package-lock.json'' \<or> endsWith p ''/package-lock.json''"
proof
  assume h: "fileName_of p = ''package-lock.json''"
  from path_decompose [of p] show "p = ''package-lock.json'' \<or> endsWith p ''/package-lock.json''"
    unfolding h endsWith_iff by auto
next
  assume "p = ''package-lock.json'' \<or> endsWith p ''/package-lock.json''"
  then show "fileName_of p = ''package-lock.json''"
  proof
    assume "p = ''package-lock.json''"
    then show ?thesis by (simp add: fileName_of_plain)
  next
    assume "endsWith p ''/package-lock.json''"
    then obtain d where "p = d @ CHR ''/'' # ''package-lock.json''"
      unfolding endsWith_iff by auto
    then show ?thesis by (simp add: fileName_of_append fileName_of_plain)
  qed
qed

lemma some_js_first_true:
  "\<forall>q\<in>set before. f q = Inr False \<Longrightarrow> f r = Inr True \<Longrightarrow>
   some_js f (before @ r # after) = Inr True"
  by (induction before) auto

lemma replace_all_Cons:
  "replace_all c new (x # xs) = (if x = c then new else [x]) @ replace_all c new xs"
  by (simp add: replace_all_def)

lemma replace_all_append:
  "replace_all c new (xs @ ys) = replace_all c new xs @ replace_all c new ys"
  by (simp add: replace_all_def)

lemma replace_all_Nil: "replace_all c new [] = []"
  by (simp add: replace_all_def)

lemma regexPattern_Nil: "regexPattern [] = []"
  by (simp add: regexPattern_def replace_all_Nil)

lemma regexPattern_Cons:
  "regexPattern (x # p) =
     (if x = CHR ''.'' then [CHR 0x5C, CHR ''.'']
      else if x = CHR ''*'' then ''.*''
      else if x = CHR ''?'' then ''.'' else [x]) @ regexPattern p"
  by (simp add: regexPattern_def replace_all_Cons replace_all_append replace_all_Nil)

lemma no_lazy_mark: "lazy_mark (regexPattern p @ ''$'') = 0"
  by (cases p) (auto simp: lazy_mark_def startsWith_def regexPattern_Nil regexPattern_Cons)

lemma quantify_push_atom: "quantify (push_atom f a) n m = Some (case push_atom f a of Frame alts sq lst \<Rightarrow> Frame alts (RSeq sq (RRep n m a)) None)"
  by (cases f) simp

lemma parse_re_wildcards:
  assumes "\<forall>c\<in>set p. c \<notin> {CHR 0x5C, CHR ''+'', CHR ''('', CHR '')'', CHR ''['', CHR ''{''}"
  shows "\<exists>r. parse_re (regexPattern p @ ''$'') [] f = Inr r"
  using assms
proof (induction p arbitrary: f)
  case Nil
  show ?case by (simp add: regexPattern_Nil)
next
  case (Cons x p)
  then have IH: "\<And>f. \<exists>r. parse_re (regexPattern p @ ''$'') [] f = Inr r"
    by simp
  from Cons.prems have x: "x \<noteq> CHR 0x5C" "x \<noteq> CHR ''+''" "x \<noteq> CHR ''(''" "x \<noteq> CHR '')''"
    "x \<noteq> CHR ''[''" "x \<noteq> CHR ''{''" by auto
  consider "x = CHR ''.''" | "x = CHR ''*''" | "x = CHR ''?''" | "x = CHR ''|''" | "x = CHR ''^''"
    | "x = CHR ''$''"
    | "x \<notin> {CHR ''.'', CHR ''*'', CHR ''?'', CHR ''|'', CHR ''^'', CHR ''$''}" by blast
  then show ?case
  proof cases
    case 1
    then show ?thesis using IH
      by (simp add: regexPattern_Cons atom_escape_def class_escape_def is_digit_def)
  next
    case 2
    then show ?thesis using IH
      by (simp add: regexPattern_Cons quantify_push_atom no_lazy_mark)
  next
    case 3
    then show ?thesis using IH by (simp add: regexPattern_Cons)
  next
    case 4
    then show ?thesis using IH by (simp add: regexPattern_Cons)
  next
    case 5
    then show ?thesis using IH by (simp add: regexPattern_Cons)
  next
    case 6
    then show ?thesis using IH by (simp add: regexPattern_Cons)
  next
    case 7
    then show ?thesis using IH x by (simp add: regexPattern_Cons)
  qed
qed

lemma matchPattern_total_wildcards:
  assumes "\<forall>c\<in>set pattern. c \<notin> {CHR 0x5C, CHR ''+'', CHR ''('', CHR '')'', CHR ''['', CHR ''{''}"
  shows "\<exists>b. matchPattern pattern filePath = Inr b"
proof -
  obtain r where "parse_re (regexPattern pattern @ ''$'') [] (push_assertion empty_frame RBol) = Inr r"
    using parse_re_wildcards [OF assms] by blast
  then have "new_RegExp (''^'' @ regexPattern pattern @ ''$'') = Inr r"
    by (simp add: new_RegExp_def)
  then show ?thesis by (auto simp: matchPattern_def)
qed


subsection \<open>Patterns without special characters\<close>

lemma regexPattern_plain:
  "\<forall>c\<in>set p. c \<notin> {CHR ''.'', CHR ''*'', CHR ''?''} \<Longrightarrow> regexPattern p = p"
  by (induction p) (simp_all add: regexPattern_Nil regexPattern_Cons)

lemma parse_re_plain:
  "\<forall>c\<in>set p. c \<notin> {CHR 0x5C, CHR ''^'', CHR ''$'', CHR ''.'', CHR ''*'', CHR ''+'', CHR ''?'',
                     CHR ''('', CHR '')'', CHR ''['', CHR ''{'', CHR ''|''} \<Longrightarrow>
   parse_re (p @ rest) st f = parse_re rest st (foldl (\<lambda>f c. push_atom f (RChar c)) f p)"
  by (induction p arbitrary: f) simp_all

lemma flush_push_atom: "flush (push_atom f a) = RSeq (flush f) a"
  by (cases f rule: flush.cases) simp_all

lemma run_literal:
  "run (flush (foldl (\<lambda>f c. push_atom f (RChar c)) f p)) ps =
   foldl (\<lambda>ps c. concat (map (eat (\<lambda>x. x = c)) ps)) (run (flush f) ps) p"
  by (induction p arbitrary: f) (simp_all add: flush_push_atom)

lemma no_alternative:
  "\<exists>sq lst. f = Frame None sq lst \<Longrightarrow>
   \<exists>sq lst. foldl (\<lambda>f c. push_atom f (RChar c)) f p = Frame None sq lst"
  by (induction p arbitrary: f) auto

lemma eat_all_nothing:
  "foldl (\<lambda>ps c. concat (map (eat (\<lambda>x. x = c)) ps)) [] p = []"
  by (induction p) simp_all

lemma eat_literal:
  "(filter (\<lambda>q. snd q = []) (foldl (\<lambda>ps c. concat (map (eat (\<lambda>x. x = c)) ps)) [(prev, s)] p) \<noteq> [])
   = (s = p)"
proof (induction p arbitrary: prev s)
  case Nil
  show ?case by simp
next
  case step: (Cons c p)
  show ?case
  proof (cases s)
    case Nil
    then show ?thesis by (simp add: eat_all_nothing)
  next
    case (Cons x xs)
    show ?thesis
    proof (cases "x = c")
      case True
      with Cons step.IH [of "Some c" xs] show ?thesis by simp
    next
      case False
      with Cons show ?thesis by (simp add: eat_all_nothing)
    qed
  qed
qed

lemma positions_start: "filter (\<lambda>p. fst p = None) (positions (Some a) s) = []"
  by (induction s arbitrary: a) simp_all

lemma positions_None: "filter (\<lambda>p. fst p = None) (positions None s) = [(None, s)]"
  by (cases s) (simp_all add: positions_start)

lemma literal_regex:
  assumes "\<forall>c\<in>set p. c \<notin> {CHR 0x5C, CHR ''^'', CHR ''$'', CHR ''.'', CHR ''*'', CHR ''+'', CHR ''?'',
                     CHR ''('', CHR '')'', CHR ''['', CHR ''{'', CHR ''|''}"
  shows "\<exists>r. new_RegExp (''^'' @ regexPattern p @ ''$'') = Inr r \<and> (\<forall>s. regex_test r s = (s = p))"
proof -
  let ?f0 = "Frame None (RSeq REmpty RBol) None"
  let ?F = "foldl (\<lambda>f c. push_atom f (RChar c)) ?f0 p"
  have plain: "regexPattern p = p"
    using assms by (intro regexPattern_plain) auto
  obtain sq lst where F: "?F = Frame None sq lst"
    using no_alternative [of ?f0 p] by blast
  have "new_RegExp (''^'' @ regexPattern p @ ''$'') = parse_re (p @ ''$'') [] ?f0"
    by (simp add: plain new_RegExp_def empty_frame_def)
  also have "\<dots> = parse_re ''$'' [] ?F"
    by (rule parse_re_plain [OF assms])
  also have "\<dots> = Inr (RSeq (flush ?F) REol)"
    unfolding F by simp
  finally have re: "new_RegExp (''^'' @ regexPattern p @ ''$'') = Inr (RSeq (flush ?F) REol)" .
  have "regex_test (RSeq (flush ?F) REol) s = (s = p)" for s
    by (simp add: regex_test_def run_literal positions_None eat_literal)
  with re show ?thesis by blast
qed

lemma matchPattern_literal:
  assumes "\<forall>c\<in>set p. c \<notin> {CHR 0x5C, CHR ''^'', CHR ''$'', CHR ''.'', CHR ''*'', CHR ''+'', CHR ''?'',
                     CHR ''('', CHR '')'', CHR ''['', CHR ''{'', CHR ''|''}"
  shows "matchPattern p filePath = Inr (p \<noteq> [] \<and> (p = filePath \<or> p = fileName_of filePath))"
proof -
  from literal_regex [OF assms] obtain r where
    "new_RegExp (''^'' @ regexPattern p @ ''$'') = Inr r" "\<And>s. regex_test r s = (s = p)"
    by blast
  then show ?thesis
    by (auto simp: matchPattern_def)
qed

subsection \<open>The decision as a disjunction\<close>

lemma some_js_any:
  "\<forall>x\<in>set xs. \<exists>b. f x = Inr b \<Longrightarrow> some_js f xs = Inr (\<exists>x\<in>set xs. f x = Inr True)"
  by (induction xs) (auto split: sum.splits bool.splits)

lemma shouldIgnore_any:
  assumes "\<forall>r\<in>set R. \<exists>b. rule_fires p r = Inr b"
  shows "shouldIgnore p R =
         Inr (fileName_of p = ''package-lock.json'' \<or> (\<exists>r\<in>set R. rule_fires p r = Inr True))"
  using some_js_any [OF assms]
  by (auto simp: shouldIgnore_def lock_file_basename)

subsection \<open>What makes a rule fire\<close>

lemma trim_nonempty: "x \<in> set s \<Longrightarrow> \<not> is_space x \<Longrightarrow> trim s \<noteq> []"
proof -
  assume x: "x \<in> set s" "\<not> is_space x"
  have keep: "x \<in> set (dropWhile is_space t)" if "x \<in> set t" for t
    using that x(2) by (induction t) auto
  have "x \<in> set (dropWhile is_space (rev (dropWhile is_space s)))"
    using keep [of "rev (dropWhile is_space s)"] keep [OF x(1)] by simp
  then have "dropWhile is_space (rev (dropWhile is_space s)) \<noteq> []"
    by (metis empty_iff empty_set)
  then show ?thesis
    unfolding trim_def rev_is_Nil_conv .
qed

lemma negated_rule_fires:
  assumes "startsWith r ''!''"
  shows "rule_fires p r =
         (case matchPattern (drop 1 r) p of Inl e \<Rightarrow> Inl e | Inr b \<Rightarrow> Inr (\<not> b))"
proof -
  from assms obtain rest where r: "r = CHR ''!'' # rest"
    by (cases r) (auto simp: startsWith_def)
  have "trim r \<noteq> []"
    by (rule trim_nonempty [of "CHR ''!''"]) (simp_all add: r is_space_def)
  then show ?thesis
    by (simp add: rule_fires_def r startsWith_def)
qed

lemma plain_rule_fires:
  "\<not> startsWith r ''#'' \<Longrightarrow> \<not> startsWith r ''!'' \<Longrightarrow> trim r \<noteq> [] \<Longrightarrow>
   rule_fires p r = matchPattern r p"
  by (simp add: rule_fires_def)

subsection \<open>The claims about the pattern matcher\<close>

text \<open>
  Claim C4.  A candidate whose final path segment is exactly \<^verbatim>\<open>package-lock.json\<close> is
  ignored under every rule list, the empty one and those that negate the name included:
  the check comes first and returns before any rule is looked at, so not even a rule
  that the regular-expression constructor rejects is reached.  With the empty rule list
  nothing else is ignored.
\<close>

theorem lock_file_always_ignored:
  "(fileName_of p = ''package-lock.json'' \<longrightarrow> shouldIgnore p R = Inr True)
   \<and> shouldIgnore p [] = Inr (fileName_of p = ''package-lock.json'')
   \<and> shouldIgnore ''package-lock.json'' [] = Inr True
   \<and> shouldIgnore ''a/package-lock.json'' R = Inr True
   \<and> shouldIgnore ''package-lock.json'' (''!package-lock.json'' # R) = Inr True"
proof -
  have a: "fileName_of p = ''package-lock.json'' \<longrightarrow> shouldIgnore p R = Inr True"
    by (simp add: lock_file_basename shouldIgnore_def)
  have b: "shouldIgnore p [] = Inr (fileName_of p = ''package-lock.json'')"
    by (simp add: lock_file_basename shouldIgnore_def)
  have c: "shouldIgnore ''package-lock.json'' R' = Inr True" for R'
    by (simp add: shouldIgnore_def)
  have d: "shouldIgnore ''a/package-lock.json'' R = Inr True"
    by (simp add: shouldIgnore_def endsWith_def)
  from a b c [of "[]"] d c [of "''!package-lock.json'' # R"] show ?thesis by blast
qed

theorem lock_file_always_ignored_witness:
  "fileName_of ''src/package-lock.json'' = ''package-lock.json''
   \<and> shouldIgnore ''src/package-lock.json'' [''!package-lock.json'', ''[''] = Inr True"
proof -
  have h: "fileName_of ''src/package-lock.json'' = ''package-lock.json''"
    by code_simp
  with lock_file_always_ignored [of "''src/package-lock.json''" "[''!package-lock.json'', ''['']"]
  show ?thesis by blast
qed

text \<open>
  Claim C8.  A non-empty pattern that equals the final path segment of the candidate
  matches, whatever directories come before it; and a pattern without wildcards and
  without other characters that the regular-expression syntax reads specially matches
  exactly the candidates that it equals or whose final segment it equals.  The rule
  \<^verbatim>\<open>LICENSE\<close> ignores \<^verbatim>\<open>LICENSE\<close> and \<^verbatim>\<open>docs/LICENSE\<close>, and does not ignore
  \<^verbatim>\<open>LICENSE2\<close>.
\<close>

theorem bare_name_matches_basename:
  "(pattern \<noteq> [] \<and> fileName_of filePath = pattern \<longrightarrow> matchPattern pattern filePath = Inr True)
   \<and> ((\<forall>c\<in>set pattern.
          c \<notin> {CHR 0x5C, CHR ''^'', CHR ''$'', CHR ''.'', CHR ''*'', CHR ''+'', CHR ''?'',
               CHR ''('', CHR '')'', CHR ''['', CHR ''{'', CHR ''|''})
        \<longrightarrow> matchPattern pattern filePath =
              Inr (pattern \<noteq> [] \<and> (pattern = filePath \<or> pattern = fileName_of filePath)))
   \<and> shouldIgnore ''LICENSE'' [''LICENSE''] = Inr True
   \<and> shouldIgnore ''docs/LICENSE'' [''LICENSE''] = Inr True
   \<and> shouldIgnore ''LICENSE2'' [''LICENSE''] = Inr False"
proof -
  have a: "pattern \<noteq> [] \<and> fileName_of filePath = pattern \<longrightarrow> matchPattern pattern filePath = Inr True"
    by (auto simp: matchPattern_def)
  have e: "(\<forall>c\<in>set pattern.
          c \<notin> {CHR 0x5C, CHR ''^'', CHR ''$'', CHR ''.'', CHR ''*'', CHR ''+'', CHR ''?'',
               CHR ''('', CHR '')'', CHR ''['', CHR ''{'', CHR ''|''})
        \<longrightarrow> matchPattern pattern filePath =
              Inr (pattern \<noteq> [] \<and> (pattern = filePath \<or> pattern = fileName_of filePath))"
    using matchPattern_literal by blast
  have b: "shouldIgnore ''LICENSE'' [''LICENSE''] = Inr True" by code_simp
  have c: "shouldIgnore ''docs/LICENSE'' [''LICENSE''] = Inr True" by code_simp
  have d: "shouldIgnore ''LICENSE2'' [''LICENSE''] = Inr False" by code_simp
  from a e b c d show ?thesis by blast
qed

theorem bare_name_matches_basename_witness:
  "''Makefile'' \<noteq> [] \<and> fileName_of ''a/b/Makefile'' = ''Makefile''
   \<and> matchPattern ''Makefile'' ''a/b/Makefile'' = Inr True
   \<and> matchPattern ''Makefile'' ''a/b/Makefile.am'' = Inr False"
proof -
  have h: "''Makefile'' \<noteq> [] \<and> fileName_of ''a/b/Makefile'' = ''Makefile''"
    by code_simp
  have n: "fileName_of ''a/b/Makefile.am'' = ''Makefile.am''"
    by code_simp
  have p: "\<forall>c\<in>set ''Makefile''.
          c \<notin> {CHR 0x5C, CHR ''^'', CHR ''$'', CHR ''.'', CHR ''*'', CHR ''+'', CHR ''?'',
               CHR ''('', CHR '')'', CHR ''['', CHR ''{'', CHR ''|''}"
    by simp
  from h n p bare_name_matches_basename [of "''Makefile''" "''a/b/Makefile''"]
    bare_name_matches_basename [of "''Makefile''" "''a/b/Makefile.am''"]
  show ?thesis by simp
qed

text \<open>
  Claim C1 reads the decision as a fold in which a later negated rule resets the
  verdict, so that \<^verbatim>\<open>keep.log\<close> is not ignored under \<^verbatim>\<open>["*.log", "!keep.log"]\<close>.  The
  code asks \<^verbatim>\<open>some\<close> whether any rule fires, and \<^verbatim>\<open>*.log\<close> fires first.
\<close>

theorem negation_does_not_override_counterexample:
  "shouldIgnore ''keep.log'' [''*.log'', ''!keep.log''] = Inr True"
  by code_simp

text \<open>
  Claim C1, amended.  The decision is a left-to-right search for the first rule that
  fires.  A rule that begins with \<^verbatim>\<open>!\<close> fires exactly when the pattern after the mark
  does not match; a comment or blank rule never fires; any other rule fires exactly
  when its pattern matches.  Once the rules before it have not fired and a rule
  fires, the candidate is ignored whatever rules follow; and when no rule throws, the
  candidate is ignored exactly when it is the lock file or some rule fires, whatever
  the order.  Under \<^verbatim>\<open>["*.log", "!keep.log"]\<close> both \<^verbatim>\<open>keep.log\<close> and \<^verbatim>\<open>other.log\<close> are
  ignored; under \<^verbatim>\<open>["!keep.log"]\<close> alone \<^verbatim>\<open>src/main.ts\<close> is ignored and \<^verbatim>\<open>keep.log\<close> is
  not.
\<close>

theorem first_firing_rule_decides:
  "((\<forall>q\<in>set before. rule_fires p q = Inr False) \<and> rule_fires p r = Inr True
      \<longrightarrow> shouldIgnore p (before @ r # after) = Inr True)
   \<and> ((\<forall>q\<in>set R. \<exists>b. rule_fires p q = Inr b)
        \<longrightarrow> shouldIgnore p R =
              Inr (fileName_of p = ''package-lock.json'' \<or> (\<exists>q\<in>set R. rule_fires p q = Inr True)))
   \<and> (startsWith rule ''!''
        \<longrightarrow> rule_fires p rule =
              (case matchPattern (drop 1 rule) p of Inl e \<Rightarrow> Inl e | Inr b \<Rightarrow> Inr (\<not> b)))
   \<and> (\<not> startsWith rule ''#'' \<and> \<not> startsWith rule ''!'' \<and> trim rule \<noteq> []
        \<longrightarrow> rule_fires p rule = matchPattern rule p)
   \<and> (startsWith rule ''#'' \<or> trim rule = [] \<longrightarrow> rule_fires p rule = Inr False)
   \<and> shouldIgnore ''keep.log'' [''*.log'', ''!keep.log''] = Inr True
   \<and> shouldIgnore ''other.log'' [''*.log'', ''!keep.log''] = Inr True
   \<and> shouldIgnore ''src/main.ts'' [''!keep.log''] = Inr True
   \<and> shouldIgnore ''keep.log'' [''!keep.log''] = Inr False"
proof -
  have a: "(\<forall>q\<in>set before. rule_fires p q = Inr False) \<and> rule_fires p r = Inr True
      \<longrightarrow> shouldIgnore p (before @ r # after) = Inr True"
    by (simp add: shouldIgnore_def some_js_first_true)
  have d: "(\<forall>q\<in>set R. \<exists>b. rule_fires p q = Inr b)
        \<longrightarrow> shouldIgnore p R =
              Inr (fileName_of p = ''package-lock.json'' \<or> (\<exists>q\<in>set R. rule_fires p q = Inr True))"
    using shouldIgnore_any by blast
  have n: "startsWith rule ''!''
        \<longrightarrow> rule_fires p rule =
              (case matchPattern (drop 1 rule) p of Inl e \<Rightarrow> Inl e | Inr b \<Rightarrow> Inr (\<not> b))"
    using negated_rule_fires by blast
  have m: "\<not> startsWith rule ''#'' \<and> \<not> startsWith rule ''!'' \<and> trim rule \<noteq> []
        \<longrightarrow> rule_fires p rule = matchPattern rule p"
    using plain_rule_fires by blast
  have k: "startsWith rule ''#'' \<or> trim rule = [] \<longrightarrow> rule_fires p rule = Inr False"
    by (simp add: rule_fires_def)
  have b: "shouldIgnore ''keep.log'' [''*.log'', ''!keep.log''] = Inr True" by code_simp
  have c: "shouldIgnore ''other.log'' [''*.log'', ''!keep.log''] = Inr True" by code_simp
  have e: "shouldIgnore ''src/main.ts'' [''!keep.log''] = Inr True" by code_simp
  have f: "shouldIgnore ''keep.log'' [''!keep.log''] = Inr False" by code_simp
  from a d n m k b c e f show ?thesis by blast
qed

theorem first_firing_rule_decides_witness:
  "rule_fires ''src/main.ts'' ''# note'' = Inr False
   \<and> matchPattern ''*.md'' ''src/main.ts'' = Inr False
   \<and> rule_fires ''src/main.ts'' ''*.md'' = Inr False
   \<and> matchPattern ''keep.log'' ''src/main.ts'' = Inr False
   \<and> rule_fires ''src/main.ts'' ''!keep.log'' = Inr True
   \<and> shouldIgnore ''src/main.ts'' ([''*.md''] @ ''!keep.log'' # [''*.log'']) = Inr True
   \<and> shouldIgnore ''src/main.ts'' [''# note'', ''*.md'', ''!keep.log''] = Inr True"
proof -
  have m1: "matchPattern ''*.md'' ''src/main.ts'' = Inr False" by code_simp
  have m2: "matchPattern ''keep.log'' ''src/main.ts'' = Inr False" by code_simp
  have s1: "\<not> startsWith ''*.md'' ''#''" "\<not> startsWith ''*.md'' ''!''" "trim ''*.md'' \<noteq> []"
    by code_simp+
  have s2: "startsWith ''!keep.log'' ''!''" by (simp add: startsWith_def)
  have s3: "startsWith ''# note'' ''#''" by (simp add: startsWith_def)
  note plain = first_firing_rule_decides [where p = "''src/main.ts''" and rule = "''*.md''"]
  note comment = first_firing_rule_decides [where p = "''src/main.ts''" and rule = "''# note''"]
  note inst = first_firing_rule_decides
    [where before = "[''*.md'']" and p = "''src/main.ts''" and r = "''!keep.log''"
       and after = "[''*.log'']" and rule = "''!keep.log''"
       and R = "[''# note'', ''*.md'', ''!keep.log'']"]
  from plain s1 m1 have h1: "rule_fires ''src/main.ts'' ''*.md'' = Inr False"
    by simp
  from comment s3 have h0: "rule_fires ''src/main.ts'' ''# note'' = Inr False"
    by simp
  from inst s2 m2 have h4: "rule_fires ''src/main.ts'' ''!keep.log'' = Inr True"
    by simp
  from inst h1 h4 have h5: "shouldIgnore ''src/main.ts'' ([''*.md''] @ ''!keep.log'' # [''*.log'']) = Inr True"
    by simp
  from inst h0 h1 h4 have h6: "shouldIgnore ''src/main.ts'' [''# note'', ''*.md'', ''!keep.log''] = Inr True"
    by auto
  from h0 m1 h1 m2 h4 h5 h6 show ?thesis by blast
qed

text \<open>
  Claim C2 says that matching never throws.  Only the dot is escaped before the
  pattern is handed to the regular-expression constructor, which rejects an
  unterminated class, an unterminated group and a quantifier with nothing to repeat.
\<close>

theorem matchPattern_throws_counterexample:
  "matchPattern ''['' ''a'' = Inl SyntaxError
   \<and> matchPattern ''('' ''a'' = Inl SyntaxError
   \<and> matchPattern ''+'' ''a'' = Inl SyntaxError"
proof -
  have a: "matchPattern ''['' ''a'' = Inl SyntaxError" by code_simp
  have b: "matchPattern ''('' ''a'' = Inl SyntaxError" by code_simp
  have c: "matchPattern ''+'' ''a'' = Inl SyntaxError" by code_simp
  from a b c show ?thesis by blast
qed

text \<open>
  Claim C2, amended.  Matching returns a boolean for every candidate when the pattern
  holds none of the characters backslash, \<^verbatim>\<open>+\<close>, \<^verbatim>\<open>(\<close>, \<^verbatim>\<open>)\<close>, \<^verbatim>\<open>[\<close> and \<^verbatim>\<open>{\<close>.
\<close>

theorem matchPattern_total_on_wildcards:
  "(\<forall>c\<in>set pattern. c \<notin> {CHR 0x5C, CHR ''+'', CHR ''('', CHR '')'', CHR ''['', CHR ''{''})
   \<longrightarrow> (\<exists>b. matchPattern pattern filePath = Inr b)"
  using matchPattern_total_wildcards by blast

theorem matchPattern_total_on_wildcards_witness:
  "\<exists>b. matchPattern ''*.l?g'' ''dir/keep.log'' = Inr b"
proof -
  have h: "\<forall>c\<in>set ''*.l?g''. c \<notin> {CHR 0x5C, CHR ''+'', CHR ''('', CHR '')'', CHR ''['', CHR ''{''}"
    by simp
  with matchPattern_total_on_wildcards [of "''*.l?g''" "''dir/keep.log''"]
  show ?thesis by blast
qed

section \<open>Properties of the line filter\<close>

lemma filter_js_Inr:
  "filter_js f xs = Inr ys \<Longrightarrow> ys = filter (\<lambda>x. f x = Inr True) xs"
  by (induction xs arbitrary: ys) (auto split: sum.splits if_splits)

lemma filter_js_idem:
  "filter_js f xs = Inr ys \<Longrightarrow> filter_js f ys = Inr ys"
  by (induction xs arbitrary: ys) (auto split: sum.splits if_splits)

lemma filter_js_total:
  "\<forall>x\<in>set xs. \<exists>b. f x = Inr b \<Longrightarrow> \<exists>ys. filter_js f xs = Inr ys"
  by (induction xs) (auto split: sum.splits)

lemma not_ignored_line:
  "((case shouldIgnore line L of Inl e \<Rightarrow> Inl e | Inr b \<Rightarrow> Inr (\<not> b)) = Inr True)
     = (shouldIgnore line L = Inr False)"
  by (auto split: sum.splits)

text \<open>
  Claim C9 says that for every list of line rules the filter leaves exactly the lines
  that the list does not ignore.  With the empty list the content is not filtered at
  all and keeps a line \<^verbatim>\<open>package-lock.json\<close>, which every list ignores; and a rule that
  the regular-expression constructor rejects makes the filter throw.
\<close>

theorem line_filter_keeps_ignored_line_counterexample:
  "filteredContent [] ''package-lock.json'' = Inr ''package-lock.json''
   \<and> shouldIgnore ''package-lock.json'' [] = Inr True
   \<and> filteredLines [''[''] [''a''] = Inl SyntaxError"
proof -
  have a: "filteredContent [] ''package-lock.json'' = Inr ''package-lock.json''"
    by (simp add: filteredContent_def)
  have b: "shouldIgnore ''package-lock.json'' [] = Inr True"
    by (simp add: shouldIgnore_def)
  have c: "filteredLines [''[''] [''a''] = Inl SyntaxError"
    by code_simp
  from a b c show ?thesis by blast
qed

text \<open>
  Claim C9, amended.  Whenever the filter over the lines returns, it returns the lines
  that the rule list does not ignore, in their original order, and filtering its result
  again with the same list returns it unchanged; the content is filtered in this way
  exactly when the rule list is not empty, and is left as it is otherwise.
\<close>

theorem line_filter_subsequence_idempotent:
  "(filteredLines L s = Inr r \<longrightarrow>
      r = filter (\<lambda>line. shouldIgnore line L = Inr False) s \<and> filteredLines L r = Inr r)
   \<and> (L \<noteq> [] \<longrightarrow>
        filteredContent L c =
          (case filteredLines L (split_on (CHR 0x0A) c) of
             Inl e \<Rightarrow> Inl e
           | Inr ls \<Rightarrow> Inr (join_with [CHR 0x0A] ls)))
   \<and> filteredContent [] c = Inr c"
proof -
  have a: "filteredLines L s = Inr r \<longrightarrow>
      r = filter (\<lambda>line. shouldIgnore line L = Inr False) s \<and> filteredLines L r = Inr r"
  proof
    assume h: "filteredLines L s = Inr r"
    have "r = filter (\<lambda>line. shouldIgnore line L = Inr False) s"
      using filter_js_Inr [OF h [unfolded filteredLines_def]] by (simp only: not_ignored_line)
    moreover have "filteredLines L r = Inr r"
      using filter_js_idem [OF h [unfolded filteredLines_def]] by (simp only: filteredLines_def)
    ultimately show "r = filter (\<lambda>line. shouldIgnore line L = Inr False) s \<and> filteredLines L r = Inr r"
      by blast
  qed
  have b: "L \<noteq> [] \<longrightarrow>
        filteredContent L c =
          (case filteredLines L (split_on (CHR 0x0A) c) of
             Inl e \<Rightarrow> Inl e
           | Inr ls \<Rightarrow> Inr (join_with [CHR 0x0A] ls))"
    by (simp add: filteredContent_def)
  have c: "filteredContent [] c = Inr c"
    by (simp add: filteredContent_def)
  from a b c show ?thesis by blast
qed

theorem line_filter_subsequence_idempotent_witness:
  "filteredLines [''x*'', ''!*b''] [''keep b'', ''x1'', ''drop'', ''also b''] = Inr [''keep b'', ''also b'']
   \<and> filteredLines [''x*'', ''!*b''] [''keep b'', ''also b''] = Inr [''keep b'', ''also b'']"
proof -
  have h: "filteredLines [''x*'', ''!*b''] [''keep b'', ''x1'', ''drop'', ''also b''] = Inr [''keep b'', ''also b'']"
    by code_simp
  from line_filter_subsequence_idempotent
         [of "[''x*'', ''!*b'']" "[''keep b'', ''x1'', ''drop'', ''also b'']" "[''keep b'', ''also b'']"] h
  show ?thesis by blast
qed

section \<open>Properties of the tree builder\<close>

subsection \<open>The index\<close>

lemma update_absent: "k \<notin> fst ` set al \<Longrightarrow> AList.update k v al = al @ [(k, v)]"
  by (induction al) auto

lemma update_member:
  "(a, b) \<in> set (AList.update k v al) \<Longrightarrow> (a, b) \<in> set al \<or> (a = k \<and> b = v)"
  by (induction al) (auto split: if_splits)

lemma create_dir_root: "root (create_dir d st item) = root st"
  by (simp add: create_dir_def)

lemma foldl_create_dir_root: "root (foldl (create_dir d) st items) = root st"
  by (induction items arbitrary: st) (simp_all add: create_dir_root)

lemma foldl_create_dir_empty:
  "\<forall>kv\<in>set (dirs st). snd kv = [] \<Longrightarrow>
   \<forall>kv\<in>set (dirs (foldl (create_dir d) st items)). snd kv = []"
proof (induction items arbitrary: st)
  case Nil
  then show ?case by simp
next
  case (Cons item items)
  have "\<forall>kv\<in>set (dirs (create_dir d st item)). snd kv = []"
    using Cons.prems by (auto simp: create_dir_def dest!: update_member)
  from Cons.IH [OF this] show ?case by simp
qed

lemma foldl_create_dir_distinct:
  "distinct (map fst (dirs st)) \<Longrightarrow> distinct (map fst (dirs (foldl (create_dir d) st items)))"
proof (induction items arbitrary: st)
  case Nil
  then show ?case by simp
next
  case (Cons item items)
  have "distinct (map fst (dirs (create_dir d st item)))"
    using Cons.prems by (simp add: create_dir_def distinct_update)
  from Cons.IH [OF this] show ?case by simp
qed

lemma foldl_create_dir_keys:
  "set (map fst (dirs (foldl (create_dir d) st items))) =
   set (map fst (dirs st))
   \<union> {p \<in> item_path ` set items. \<not> too_deep d p \<and> p \<noteq> ''__proto__''}"
proof (induction items arbitrary: st)
  case Nil
  show ?case by simp
next
  case (Cons item items)
  have "set (map fst (dirs (create_dir d st item))) =
        set (map fst (dirs st))
        \<union> (if \<not> too_deep d (item_path item) \<and> item_path item \<noteq> ''__proto__''
           then {item_path item} else {})"
    by (auto simp: create_dir_def dom_update)
  with Cons.IH [of "create_dir d st item"] show ?case by auto
qed

lemma foldl_create_dir_order:
  "distinct (map fst (dirs st)
             @ filter (\<lambda>p. \<not> too_deep d p \<and> p \<noteq> ''__proto__'') (map item_path items)) \<Longrightarrow>
   map fst (dirs (foldl (create_dir d) st items)) =
   map fst (dirs st) @ filter (\<lambda>p. \<not> too_deep d p \<and> p \<noteq> ''__proto__'') (map item_path items)"
proof (induction items arbitrary: st)
  case Nil
  show ?case by simp
next
  case (Cons item items)
  let ?keep = "\<lambda>p. \<not> too_deep d p \<and> p \<noteq> ''__proto__''"
  have step: "map fst (dirs (create_dir d st item)) =
        map fst (dirs st) @ (if ?keep (item_path item) then [item_path item] else [])"
    using Cons.prems by (auto simp: create_dir_def update_keys)
  have "distinct (map fst (dirs (create_dir d st item)) @ filter ?keep (map item_path items))"
    using Cons.prems unfolding step by auto
  from Cons.IH [OF this] show ?case unfolding step by simp
qed

lemma foldl_create_dir_proto:
  "proto (foldl (create_dir d) st items) =
   (proto st \<or> (\<exists>item\<in>set items. \<not> too_deep d (item_path item) \<and> item_path item = ''__proto__''))"
  by (induction items arbitrary: st) (auto simp: create_dir_def)

subsection \<open>Attaching\<close>

lemma forEach_js_map: "forEach_js (\<lambda>x. body (g x)) xs st = forEach_js body (map g xs) st"
  by (induction xs arbitrary: st) (auto split: sum.splits)

lemma forEach_js_skip:
  "forEach_js (\<lambda>x st. if skip x then Inr st else body x st) xs st =
   forEach_js body (filter (\<lambda>x. \<not> skip x) xs) st"
  by (induction xs arbitrary: st) (auto split: sum.splits)

lemma update_present_keys:
  "map_of al k = Some v \<Longrightarrow> map fst (AList.update k v' al) = map fst al"
  by (force simp: update_keys dest: map_of_SomeD)

lemma attach_cases:
  assumes "attach n par st = Inr st'"
  shows "proto st' = proto st"
    and "map fst (dirs st') = map fst (dirs st)"
    and "root st' = root st @ (if par = [] then [n] else [])"
    and "map_of (dirs st) k = Some cs \<Longrightarrow>
         map_of (dirs st') k = Some (cs @ (if par = k \<and> k \<noteq> [] then [n] else []))"
proof -
  show "proto st' = proto st"
    using assms by (auto simp: attach_def split: if_splits option.splits)
  show "map fst (dirs st') = map fst (dirs st)"
    using assms
    by (auto simp: attach_def update_present_keys split: if_splits option.splits)
  show "root st' = root st @ (if par = [] then [n] else [])"
    using assms by (auto simp: attach_def split: if_splits option.splits)
  show "map_of (dirs st') k = Some (cs @ (if par = k \<and> k \<noteq> [] then [n] else []))"
    if "map_of (dirs st) k = Some cs"
    using assms that by (auto simp: attach_def update_conv' split: if_splits option.splits)
qed

lemma attach_all:
  assumes "forEach_js (\<lambda>x. attach (fst x) (snd x)) pairs st = Inr st'"
  shows "proto st' = proto st \<and> map fst (dirs st') = map fst (dirs st)
    \<and> root st' = root st @ map fst (filter (\<lambda>x. snd x = []) pairs)
    \<and> (\<forall>k cs. map_of (dirs st) k = Some cs \<longrightarrow>
          map_of (dirs st') k = Some (cs @ map fst (filter (\<lambda>x. snd x = k \<and> k \<noteq> []) pairs)))"
  using assms
proof (induction pairs arbitrary: st)
  case Nil
  then show ?case by simp
next
  case (Cons x pairs)
  from Cons.prems obtain st1 where
    one: "attach (fst x) (snd x) st = Inr st1" and
    rest: "forEach_js (\<lambda>x. attach (fst x) (snd x)) pairs st1 = Inr st'"
    by (auto split: sum.splits)
  note a = attach_cases [OF one]
  note ih = Cons.IH [OF rest]
  have "proto st' = proto st" using ih a(1) by simp
  moreover have "map fst (dirs st') = map fst (dirs st)" using ih a(2) by simp
  moreover have "root st' = root st @ map fst (filter (\<lambda>x. snd x = []) (x # pairs))"
    using ih a(3) by simp
  moreover have "map_of (dirs st') k = Some (cs @ map fst (filter (\<lambda>x. snd x = k \<and> k \<noteq> []) (x # pairs)))"
    if "map_of (dirs st) k = Some cs" for k cs
    using a(4) [OF that] ih by simp
  ultimately show ?case by blast
qed

lemma attach_total:
  "\<not> proto st \<Longrightarrow> \<exists>st'. attach n par st = Inr st' \<and> \<not> proto st'"
  by (auto simp: attach_def split: option.splits)

lemma attach_all_total:
  "\<not> proto st \<Longrightarrow> \<exists>st'. forEach_js (\<lambda>x. attach (fst x) (snd x)) pairs st = Inr st' \<and> \<not> proto st'"
proof (induction pairs arbitrary: st)
  case Nil
  then show ?case by simp
next
  case (Cons x pairs)
  from attach_total [OF Cons.prems, of "fst x" "snd x"] obtain st1 where
    "attach (fst x) (snd x) st = Inr st1" "\<not> proto st1" by blast
  with Cons.IH [of st1] show ?case by simp
qed

lemma attach_polluted:
  "attach n par st = Inr st' \<Longrightarrow>
   polluted st' = (polluted st \<or> (par = ''__proto__'' \<and> \<not> proto st
                                   \<and> map_of (dirs st) par = None))"
  by (auto simp: attach_def split: if_splits option.splits)

lemma attach_all_polluted:
  "forEach_js (\<lambda>x. attach (fst x) (snd x)) pairs st = Inr st' \<Longrightarrow> polluted st' \<Longrightarrow>
   polluted st \<or> (\<exists>x\<in>set pairs. snd x = ''__proto__'')"
proof (induction pairs arbitrary: st)
  case Nil
  then show ?case by simp
next
  case (Cons x pairs)
  from Cons.prems(1) obtain st1 where
    one: "attach (fst x) (snd x) st = Inr st1" and
    rest: "forEach_js (\<lambda>x. attach (fst x) (snd x)) pairs st1 = Inr st'"
    by (auto split: sum.splits)
  from Cons.IH [OF rest Cons.prems(2)] attach_polluted [OF one] show ?case
    by auto
qed

lemma foldl_create_dir_polluted: "polluted (foldl (create_dir d) st items) = polluted st"
  by (induction items arbitrary: st) (simp_all add: create_dir_def)

subsection \<open>The three loops together\<close>

lemma wire_all:
  "forEach_js wire_dir ps st =
   forEach_js (\<lambda>x. attach (fst x) (snd x)) (map (\<lambda>p. (DirNode p, parentPath_of p)) ps) st"
  by (induction ps arbitrary: st) (auto simp: wire_dir_def split: sum.splits)

lemma add_all:
  "forEach_js (add_file d) blobs st =
   forEach_js (\<lambda>x. attach (fst x) (snd x))
     (map (\<lambda>p. (FileNode p, parentPath_of p))
        (filter (\<lambda>p. \<not> too_deep d p) (map item_path blobs))) st"
  by (induction blobs arbitrary: st) (auto simp: add_file_def split: sum.splits)

lemma not_ignored_True:
  "(not_ignored pats item = Inr True) = (shouldIgnore (item_path item) pats = Inr False)"
  by (auto simp: not_ignored_def split: sum.splits)

lemma kept_paths_filter:
  "filter_js (not_ignored pats) (filter (\<lambda>item. item_type item = ty) items) = Inr kept \<Longrightarrow>
   filter (\<lambda>p. \<not> too_deep d p) (map item_path kept) = kept_paths ty items pats d"
  by (drule filter_js_Inr)
     (auto simp: kept_paths_def filter_map comp_def not_ignored_True intro!: arg_cong [where f = "map item_path"] filter_cong)

lemma Object_values_keys:
  "map fst m = map fst m' \<Longrightarrow> Object_values m = Object_values m'"
  by (simp add: Object_values_def)

lemma buildFileTree_parts:
  assumes "buildFileTree items pats d = Inr st"
  obtains trees st1 st2 where
    "filter_js (not_ignored pats) (filter (\<lambda>item. item_type item = ''tree'') items) = Inr trees"
    "st1 = foldl (create_dir d) init_state trees"
    "forEach_js (\<lambda>x. attach (fst x) (snd x))
       (map (\<lambda>p. (DirNode p, parentPath_of p)) (Object_values (dirs st1))) st1 = Inr st2"
    "forEach_js (\<lambda>x. attach (fst x) (snd x))
       (map (\<lambda>p. (FileNode p, parentPath_of p)) (kept_paths ''blob'' items pats d)) st2 = Inr st"
proof -
  from assms obtain trees st2 blobs where
    t: "filter_js (not_ignored pats) (filter (\<lambda>item. item_type item = ''tree'') items) = Inr trees" and
    w: "forEach_js wire_dir (Object_values (dirs (foldl (create_dir d) init_state trees)))
          (foldl (create_dir d) init_state trees) = Inr st2" and
    b: "filter_js (not_ignored pats) (filter (\<lambda>item. item_type item = ''blob'') items) = Inr blobs" and
    a: "forEach_js (add_file d) blobs st2 = Inr st"
    by (auto simp: buildFileTree_def Let_def split: sum.splits)
  show thesis
    using that [OF t refl] w a kept_paths_filter [OF b, of d]
    by (simp add: wire_all add_all)
qed

lemma buildFileTree_index:
  assumes "buildFileTree items pats d = Inr st"
  shows "set (map fst (dirs st)) = set (kept_paths ''tree'' items pats d) - {''__proto__''}"
    and "distinct (map fst (dirs st))"
    and "distinct (kept_paths ''tree'' items pats d) \<Longrightarrow>
         map fst (dirs st) = filter (\<lambda>p. p \<noteq> ''__proto__'') (kept_paths ''tree'' items pats d)"
proof -
  from assms obtain trees st1 st2 where
    t: "filter_js (not_ignored pats) (filter (\<lambda>item. item_type item = ''tree'') items) = Inr trees" and
    st1: "st1 = foldl (create_dir d) init_state trees" and
    w: "forEach_js (\<lambda>x. attach (fst x) (snd x))
       (map (\<lambda>p. (DirNode p, parentPath_of p)) (Object_values (dirs st1))) st1 = Inr st2" and
    a: "forEach_js (\<lambda>x. attach (fst x) (snd x))
       (map (\<lambda>p. (FileNode p, parentPath_of p)) (kept_paths ''blob'' items pats d)) st2 = Inr st"
    by (rule buildFileTree_parts)
  have keys: "map fst (dirs st) = map fst (dirs st1)"
    using attach_all [OF w] attach_all [OF a] by simp
  have kept: "filter (\<lambda>p. \<not> too_deep d p) (map item_path trees) = kept_paths ''tree'' items pats d"
    by (rule kept_paths_filter [OF t])
  have split: "filter (\<lambda>p. \<not> too_deep d p \<and> p \<noteq> ''__proto__'') (map item_path trees) =
               filter (\<lambda>p. p \<noteq> ''__proto__'') (kept_paths ''tree'' items pats d)"
    unfolding kept [symmetric] by (simp add: conj_commute)
  show "set (map fst (dirs st)) = set (kept_paths ''tree'' items pats d) - {''__proto__''}"
    unfolding keys st1 foldl_create_dir_keys kept [symmetric]
    by (auto simp: init_state_def)
  show "distinct (map fst (dirs st))"
    unfolding keys st1 by (rule foldl_create_dir_distinct) (simp add: init_state_def)
  show "map fst (dirs st) = filter (\<lambda>p. p \<noteq> ''__proto__'') (kept_paths ''tree'' items pats d)"
    if "distinct (kept_paths ''tree'' items pats d)"
  proof -
    have "distinct (map fst (dirs init_state)
            @ filter (\<lambda>p. \<not> too_deep d p \<and> p \<noteq> ''__proto__'') (map item_path trees))"
      unfolding split using that by (simp add: init_state_def)
    from foldl_create_dir_order [OF this] show ?thesis
      unfolding keys st1 split by (simp add: init_state_def)
  qed
qed

lemma buildFileTree_arrays:
  assumes "buildFileTree items pats d = Inr st"
  shows "root st =
           map DirNode (filter (\<lambda>p. parentPath_of p = []) (Object_values (dirs st)))
           @ map FileNode (filter (\<lambda>p. parentPath_of p = []) (kept_paths ''blob'' items pats d))"
    and "map_of (dirs st) k = Some cs \<Longrightarrow>
         cs = map DirNode (filter (\<lambda>p. parentPath_of p = k \<and> k \<noteq> []) (Object_values (dirs st)))
              @ map FileNode (filter (\<lambda>p. parentPath_of p = k \<and> k \<noteq> [])
                                (kept_paths ''blob'' items pats d))"
proof -
  from assms obtain trees st1 st2 where
    t: "filter_js (not_ignored pats) (filter (\<lambda>item. item_type item = ''tree'') items) = Inr trees" and
    st1: "st1 = foldl (create_dir d) init_state trees" and
    w: "forEach_js (\<lambda>x. attach (fst x) (snd x))
       (map (\<lambda>p. (DirNode p, parentPath_of p)) (Object_values (dirs st1))) st1 = Inr st2" and
    a: "forEach_js (\<lambda>x. attach (fst x) (snd x))
       (map (\<lambda>p. (FileNode p, parentPath_of p)) (kept_paths ''blob'' items pats d)) st2 = Inr st"
    by (rule buildFileTree_parts)
  note W = attach_all [OF w]
  note A = attach_all [OF a]
  have keys: "map fst (dirs st) = map fst (dirs st1)"
    using W A by simp
  have vals: "Object_values (dirs st) = Object_values (dirs st1)"
    by (rule Object_values_keys [OF keys])
  have root1: "root st1 = []"
    unfolding st1 by (simp add: foldl_create_dir_root init_state_def)
  have empty1: "\<forall>kv\<in>set (dirs st1). snd kv = []"
    unfolding st1 by (rule foldl_create_dir_empty) (simp add: init_state_def)
  show "root st =
           map DirNode (filter (\<lambda>p. parentPath_of p = []) (Object_values (dirs st)))
           @ map FileNode (filter (\<lambda>p. parentPath_of p = []) (kept_paths ''blob'' items pats d))"
    using W A root1 unfolding vals by (simp add: filter_map comp_def)
  show "cs = map DirNode (filter (\<lambda>p. parentPath_of p = k \<and> k \<noteq> []) (Object_values (dirs st)))
              @ map FileNode (filter (\<lambda>p. parentPath_of p = k \<and> k \<noteq> [])
                                (kept_paths ''blob'' items pats d))"
    if cs: "map_of (dirs st) k = Some cs"
  proof -
    have "k \<in> fst ` set (dirs st)"
      using cs by (force dest: map_of_SomeD)
    then have "k \<in> fst ` set (dirs st1)"
      using keys by (metis list.set_map)
    then obtain cs1 where cs1: "map_of (dirs st1) k = Some cs1"
      by (metis domD dom_map_of_conv_image_fst)
    then have "cs1 = []"
      using empty1 by (force dest: map_of_SomeD)
    with cs1 W have "map_of (dirs st2) k =
        Some (map fst (filter (\<lambda>x. snd x = k \<and> k \<noteq> [])
                (map (\<lambda>p. (DirNode p, parentPath_of p)) (Object_values (dirs st1)))))"
      by simp
    with A cs show ?thesis
      unfolding vals by (simp add: filter_map comp_def)
  qed
qed

subsection \<open>Consequences for the arrays\<close>

lemma dirs_before_files_append: "dirs_before_files (map DirNode ps @ map FileNode qs)"
proof (induction ps)
  case Nil
  show ?case by (cases qs) (simp_all add: list_all_iff)
next
  case (Cons p ps)
  then show ?case by simp
qed

lemma index_lookup:
  assumes "buildFileTree items pats d = Inr st" and "kv \<in> set (dirs st)"
  shows "map_of (dirs st) (fst kv) = Some (snd kv)"
  using buildFileTree_index(2) [OF assms(1)] assms(2) by (cases kv) simp

lemma parentPath_of_plain: "CHR ''/'' \<notin> set p \<Longrightarrow> parentPath_of p = []"
  by (simp add: parentPath_of_def after_pop_def split_on_no_sep)

lemma is_array_index_no_slash: "is_array_index p \<Longrightarrow> CHR ''/'' \<notin> set p"
  by (auto simp: is_array_index_def list_all_iff is_digit_def)

lemma set_Object_values: "set (Object_values m) = set (map fst m)"
  by (auto simp: Object_values_def)

lemma Object_values_below:
  "filter (\<lambda>p. parentPath_of p = k \<and> k \<noteq> []) (Object_values m) =
   filter (\<lambda>p. parentPath_of p = k \<and> k \<noteq> []) (map fst m)"
proof -
  have no: "\<not> is_array_index p" if "parentPath_of p = k \<and> k \<noteq> []" for p
    using that parentPath_of_plain [of p] is_array_index_no_slash [of p] by auto
  have "filter (\<lambda>p. parentPath_of p = k \<and> k \<noteq> [])
          (sort_key digits_value (filter is_array_index (map fst m))) = []"
    using no by (auto simp: filter_empty_conv)
  moreover have "filter (\<lambda>p. parentPath_of p = k \<and> k \<noteq> [])
          (filter (\<lambda>k. \<not> is_array_index k) (map fst m)) =
        filter (\<lambda>p. parentPath_of p = k \<and> k \<noteq> []) (map fst m)"
    using no by (auto intro: filter_cong)
  ultimately show ?thesis by (simp add: Object_values_def)
qed

lemma Object_values_plain:
  "\<forall>p\<in>set (map fst m). \<not> is_array_index p \<Longrightarrow> Object_values m = map fst m"
  by (simp add: Object_values_def filter_empty_conv filter_id_conv)

subsection \<open>Reading the nested value\<close>

lemma path_split:
  assumes "parentPath_of p \<noteq> []"
  shows "p = parentPath_of p @ CHR ''/'' # fileName_of p"
proof -
  let ?parts = "split_on (CHR ''/'') p"
  have ne: "?parts \<noteq> []" by (rule split_on_not_Nil)
  then have parts: "?parts = butlast ?parts @ [last ?parts]" by simp
  have fn: "fileName_of p = last ?parts"
    by (simp add: fileName_of_def pop_or_empty_last ne)
  have bl: "butlast ?parts \<noteq> []"
    using assms by (auto simp: parentPath_of_def after_pop_def)
  have "join_with ''/'' ?parts = join_with ''/'' (butlast ?parts) @ ''/'' @ last ?parts"
    using join_with_snoc [OF bl, of "''/''" "last ?parts"] parts by simp
  then show ?thesis
    by (simp add: join_split_on fn parentPath_of_def after_pop_def)
qed

lemma parentPath_shorter: "parentPath_of p \<noteq> [] \<Longrightarrow> length (parentPath_of p) < length p"
  using path_split [of p] by (metis length_append length_Cons less_add_Suc1 add_Suc_right)

lemma those_map_Some:
  "\<forall>x\<in>set xs. \<exists>y. f x = Some y \<Longrightarrow> \<exists>ys. those (map f xs) = Some ys"
  by (induction xs) auto

lemma those_map_all2:
  "those (map f xs) = Some ys \<Longrightarrow> list_all2 (\<lambda>x y. f x = Some y) xs ys"
  by (induction xs arbitrary: ys) (auto split: option.splits)

lemma longest_key:
  "kv \<in> set m \<Longrightarrow> length (fst kv) \<le> foldr (\<lambda>kv n. max (length (fst kv)) n) m 0"
  by (induction m) auto

lemma read_node_enough:
  assumes inv: "\<forall>kv\<in>set m. \<forall>q. DirNode q \<in> set (snd kv) \<longrightarrow>
                  q \<in> fst ` set m \<and> length (fst kv) < length q"
  shows "p \<in> fst ` set m \<Longrightarrow> foldr (\<lambda>kv n. max (length (fst kv)) n) m 0 - length p < n \<Longrightarrow>
         \<exists>t. read_node n m (DirNode p) = Some t"
proof (induction n arbitrary: p)
  case 0
  then show ?case by simp
next
  case (Suc n)
  let ?L = "foldr (\<lambda>kv n. max (length (fst kv)) n) m 0"
  from Suc.prems(1) obtain cs where cs: "map_of m p = Some cs"
    by (metis domD dom_map_of_conv_image_fst)
  then have mem: "(p, cs) \<in> set m" by (rule map_of_SomeD)
  have "\<exists>t. read_node n m c = Some t" if c: "c \<in> set cs" for c
  proof (cases c)
    case (FileNode q)
    then show ?thesis by simp
  next
    case (DirNode q)
    with inv mem c have q: "q \<in> fst ` set m" "length p < length q" by force+
    from q(1) have "length q \<le> ?L" using longest_key [of _ m] by auto
    with q(2) Suc.prems(2) have "?L - length q < n" by arith
    from Suc.IH [OF q(1) this] DirNode show ?thesis by simp
  qed
  then obtain ts where "those (map (read_node n m) cs) = Some ts"
    using those_map_Some [of cs "read_node n m"] by blast
  with cs show ?case by simp
qed

lemma built_index_closed:
  assumes "buildFileTree items pats d = Inr st"
  shows "\<forall>kv\<in>set (dirs st). \<forall>q. DirNode q \<in> set (snd kv) \<longrightarrow>
           q \<in> fst ` set (dirs st) \<and> length (fst kv) < length q"
proof (intro ballI allI impI)
  fix kv q assume kv: "kv \<in> set (dirs st)" and q: "DirNode q \<in> set (snd kv)"
  from q buildFileTree_arrays(2) [OF assms index_lookup [OF assms kv]]
  have "q \<in> set (Object_values (dirs st))" and par: "parentPath_of q = fst kv" "fst kv \<noteq> []"
    by auto
  then have "q \<in> fst ` set (dirs st)"
    by (simp add: set_Object_values)
  moreover have "length (fst kv) < length q"
    using parentPath_shorter [of q] par by simp
  ultimately show "q \<in> fst ` set (dirs st) \<and> length (fst kv) < length q" ..
qed

lemma forest_of_built:
  assumes "buildFileTree items pats d = Inr st"
  shows "\<exists>forest. forest_of st = Some forest"
proof -
  let ?n = "Suc (foldr (\<lambda>kv n. max (length (fst kv)) n) (dirs st) 0)"
  have "\<exists>t. read_node ?n (dirs st) c = Some t" if c: "c \<in> set (root st)" for c
  proof (cases c)
    case (FileNode q)
    then show ?thesis by simp
  next
    case (DirNode q)
    with c buildFileTree_arrays(1) [OF assms] have "q \<in> set (Object_values (dirs st))"
      by auto
    then have "q \<in> fst ` set (dirs st)"
      by (simp add: set_Object_values)
    from read_node_enough [OF built_index_closed [OF assms] this, of ?n] DirNode
    show ?thesis by simp
  qed
  then show ?thesis
    unfolding forest_of_def using those_map_Some [of "root st" "read_node ?n (dirs st)"] by blast
qed

lemma flattenTree_Cons: "flattenTree (t # rest) = flattenTree [t] @ flattenTree rest"
  by (cases t) simp

lemma set_flattenTree: "set (flattenTree ts) = (\<Union>t\<in>set ts. set (flattenTree [t]))"
proof (induction ts)
  case Nil
  show ?case by simp
next
  case (Cons t ts)
  show ?case
    by (subst flattenTree_Cons) (simp add: Cons.IH)
qed

lemma read_node_type: "read_node n m c = Some t \<Longrightarrow> (type t = ''file'') = is_file c"
  by (cases c; cases n) (auto split: option.splits)

lemma dirs_first_transfer:
  "list_all2 (\<lambda>c t. (type t = ''file'') = is_file c) cs ts \<Longrightarrow> dirs_before_files cs \<Longrightarrow>
   dirs_first ts"
proof (induction cs ts rule: list_all2_induct)
  case Nil
  show ?case by simp
next
  case (Cons c cs t ts)
  show ?case
  proof (cases c)
    case (DirNode q)
    with Cons show ?thesis by simp
  next
    case (FileNode q)
    with Cons.prems have "list_all is_file cs" by simp
    with Cons.hyps(2) have "list_all (\<lambda>u. type u = ''file'') ts"
      by (induction cs ts rule: list_all2_induct) auto
    with FileNode Cons.hyps(1) show ?thesis by simp
  qed
qed

lemma read_nodes_dirs_first:
  assumes "those (map (read_node n m) cs) = Some ts" and "dirs_before_files cs"
  shows "dirs_first ts"
proof -
  have "list_all2 (\<lambda>c t. read_node n m c = Some t) cs ts"
    by (rule those_map_all2 [OF assms(1)])
  then have "list_all2 (\<lambda>c t. (type t = ''file'') = is_file c) cs ts"
    by (rule list_all2_mono) (rule read_node_type)
  from dirs_first_transfer [OF this assms(2)] show ?thesis .
qed

lemma read_node_dirs_first:
  assumes inv: "\<forall>kv\<in>set m. dirs_before_files (snd kv)"
  shows "read_node n m c = Some t \<Longrightarrow>
         \<forall>u\<in>set (flattenTree [t]). \<forall>ts. children u = Some ts \<longrightarrow> dirs_first ts"
proof (induction n arbitrary: c t)
  case 0
  then show ?case by (cases c) auto
next
  case (Suc n)
  show ?case
  proof (cases c)
    case (FileNode q)
    with Suc.prems show ?thesis by auto
  next
    case (DirNode q)
    with Suc.prems obtain cs ts where
      cs: "map_of m q = Some cs" and
      ts: "those (map (read_node n m) cs) = Some ts" and
      t: "t = FileTree q ''dir'' (Some ts)"
      by (auto split: option.splits)
    from cs have "(q, cs) \<in> set m" by (rule map_of_SomeD)
    with inv have "dirs_before_files cs" by force
    then have here: "dirs_first ts"
      by (rule read_nodes_dirs_first [OF ts])
    have below: "\<forall>ts'. children u = Some ts' \<longrightarrow> dirs_first ts'" if "u \<in> set (flattenTree ts)" for u
    proof -
      from that obtain t' where t': "t' \<in> set ts" "u \<in> set (flattenTree [t'])"
        unfolding set_flattenTree [of ts] by blast
      from those_map_all2 [OF ts] t'(1) obtain c' where "read_node n m c' = Some t'"
        by (auto simp: list_all2_conv_all_nth in_set_conv_nth)
      from Suc.IH [OF this] t'(2) show ?thesis by blast
    qed
    show ?thesis
      unfolding t using here below by auto
  qed
qed

lemma forest_dirs_first:
  assumes "buildFileTree items pats d = Inr st" and "forest_of st = Some forest"
    and inv: "dirs_before_files (root st)" "\<forall>kv\<in>set (dirs st). dirs_before_files (snd kv)"
  shows "dirs_first forest"
    and "\<forall>u\<in>set (flattenTree forest). \<forall>ts. children u = Some ts \<longrightarrow> dirs_first ts"
proof -
  let ?n = "Suc (foldr (\<lambda>kv n. max (length (fst kv)) n) (dirs st) 0)"
  have f: "those (map (read_node ?n (dirs st)) (root st)) = Some forest"
    using assms(2) by (simp add: forest_of_def)
  show "dirs_first forest"
    by (rule read_nodes_dirs_first [OF f inv(1)])
  show "\<forall>u\<in>set (flattenTree forest). \<forall>ts. children u = Some ts \<longrightarrow> dirs_first ts"
  proof
    fix u assume "u \<in> set (flattenTree forest)"
    then obtain t where t: "t \<in> set forest" "u \<in> set (flattenTree [t])"
      unfolding set_flattenTree [of forest] by blast
    from those_map_all2 [OF f] t(1) obtain c where "read_node ?n (dirs st) c = Some t"
      by (auto simp: list_all2_conv_all_nth in_set_conv_nth)
    from read_node_dirs_first [OF inv(2) this] t(2)
    show "\<forall>ts. children u = Some ts \<longrightarrow> dirs_first ts" by blast
  qed
qed

lemma built_dirs_before_files:
  assumes "buildFileTree items pats d = Inr st"
  shows "dirs_before_files (root st)" and "\<forall>kv\<in>set (dirs st). dirs_before_files (snd kv)"
proof -
  show "dirs_before_files (root st)"
    unfolding buildFileTree_arrays(1) [OF assms] by (rule dirs_before_files_append)
  show "\<forall>kv\<in>set (dirs st). dirs_before_files (snd kv)"
  proof
    fix kv assume "kv \<in> set (dirs st)"
    from buildFileTree_arrays(2) [OF assms index_lookup [OF assms this]]
    show "dirs_before_files (snd kv)"
      by (metis dirs_before_files_append)
  qed
qed

text \<open>
  Claim C10.  In every state that the builder returns, in the top-level array and in
  the children array of every directory object, every directory stands before every
  file, however the entries were interleaved in the input: the loop over the
  directories has finished before the loop over the files begins.  The nested value
  read from that state exists, and the same holds in its top-level sequence and in the
  children of each of its nodes.
\<close>

theorem directories_precede_files:
  assumes "buildFileTree items ignorePatterns maxDepth = Inr st"
  shows "dirs_before_files (root st) \<and> (\<forall>kv\<in>set (dirs st). dirs_before_files (snd kv))
    \<and> (\<exists>forest. forest_of st = Some forest \<and> dirs_first forest
          \<and> (\<forall>u\<in>set (flattenTree forest). \<forall>ts. children u = Some ts \<longrightarrow> dirs_first ts))"
proof -
  note inv = built_dirs_before_files [OF assms]
  from forest_of_built [OF assms] obtain forest where f: "forest_of st = Some forest" ..
  from forest_dirs_first [OF assms f inv] f inv show ?thesis by blast
qed

theorem directories_precede_files_witness:
  "dirs_before_files [DirNode ''a'', FileNode ''f'']
   \<and> dirs_before_files [DirNode ''a/d'', FileNode ''a/x'']
   \<and> dirs_first [FileTree ''a'' ''dir''
                     (Some [FileTree ''a/d'' ''dir'' (Some []), FileTree ''a/x'' ''file'' None]),
                   FileTree ''f'' ''file'' None]"
proof -
  let ?st = "\<lparr>root = [DirNode ''a'', FileNode ''f''],
           dirs = [(''a'', [DirNode ''a/d'', FileNode ''a/x'']), (''a/d'', [])], proto = False, polluted = False\<rparr>"
  have h: "buildFileTree
        [\<lparr>item_path = ''f'', item_type = ''blob''\<rparr>, \<lparr>item_path = ''a'', item_type = ''tree''\<rparr>,
         \<lparr>item_path = ''a/x'', item_type = ''blob''\<rparr>, \<lparr>item_path = ''a/d'', item_type = ''tree''\<rparr>]
        [] (- 1) = Inr ?st"
    by code_simp
  have f: "forest_of ?st =
      Some [FileTree ''a'' ''dir''
              (Some [FileTree ''a/d'' ''dir'' (Some []), FileTree ''a/x'' ''file'' None]),
            FileTree ''f'' ''file'' None]"
    by code_simp
  from directories_precede_files [OF h] show ?thesis
    unfolding f by simp
qed

text \<open>
  Claim C3 says that a file entry that comes before a sibling directory entry in the
  input comes before that directory in the children array.  For the input
  \<^verbatim>\<open>a\<close> (directory), \<^verbatim>\<open>a/f\<close> (file), \<^verbatim>\<open>a/d\<close> (directory) the children of \<^verbatim>\<open>a\<close> are
  \<^verbatim>\<open>a/d\<close> and then \<^verbatim>\<open>a/f\<close>.
\<close>

theorem file_before_directory_counterexample:
  "buildFileTree
     [\<lparr>item_path = ''a'', item_type = ''tree''\<rparr>, \<lparr>item_path = ''a/f'', item_type = ''blob''\<rparr>,
      \<lparr>item_path = ''a/d'', item_type = ''tree''\<rparr>] [] (- 1) =
   Inr \<lparr>root = [DirNode ''a''],
        dirs = [(''a'', [DirNode ''a/d'', FileNode ''a/f'']), (''a/d'', [])], proto = False, polluted = False\<rparr>
   \<and> forest_of \<lparr>root = [DirNode ''a''],
        dirs = [(''a'', [DirNode ''a/d'', FileNode ''a/f'']), (''a/d'', [])], proto = False, polluted = False\<rparr> =
     Some [FileTree ''a'' ''dir''
            (Some [FileTree ''a/d'' ''dir'' (Some []), FileTree ''a/f'' ''file'' None])]"
proof -
  have a: "buildFileTree
     [\<lparr>item_path = ''a'', item_type = ''tree''\<rparr>, \<lparr>item_path = ''a/f'', item_type = ''blob''\<rparr>,
      \<lparr>item_path = ''a/d'', item_type = ''tree''\<rparr>] [] (- 1) =
   Inr \<lparr>root = [DirNode ''a''],
        dirs = [(''a'', [DirNode ''a/d'', FileNode ''a/f'']), (''a/d'', [])], proto = False, polluted = False\<rparr>"
    by code_simp
  have b: "forest_of \<lparr>root = [DirNode ''a''],
        dirs = [(''a'', [DirNode ''a/d'', FileNode ''a/f'']), (''a/d'', [])], proto = False, polluted = False\<rparr> =
     Some [FileTree ''a'' ''dir''
            (Some [FileTree ''a/d'' ''dir'' (Some []), FileTree ''a/f'' ''file'' None])]"
    by code_simp
  from a b show ?thesis by blast
qed

text \<open>
  Claim C3, amended.  For input whose kept directory paths are distinct, the children
  array of every directory holds first its directories and then its files, each group
  in the order of the filtered input sequence, with no sorting by name.  The top-level
  array holds the top-level directories in the order in which \<^verbatim>\<open>Object.values\<close>
  lists them, then the top-level files in input order; that order of the directories is
  the input order when no kept directory path is an array index.
\<close>

theorem children_keep_input_order_within_kind:
  assumes "buildFileTree items ignorePatterns maxDepth = Inr st"
    and "distinct (kept_paths ''tree'' items ignorePatterns maxDepth)"
  shows "(\<forall>kv\<in>set (dirs st).
            snd kv =
              map DirNode (filter (\<lambda>p. parentPath_of p = fst kv \<and> fst kv \<noteq> [])
                             (kept_paths ''tree'' items ignorePatterns maxDepth))
              @ map FileNode (filter (\<lambda>p. parentPath_of p = fst kv \<and> fst kv \<noteq> [])
                                (kept_paths ''blob'' items ignorePatterns maxDepth)))
    \<and> root st =
         map DirNode (filter (\<lambda>p. parentPath_of p = []) (Object_values (dirs st)))
         @ map FileNode (filter (\<lambda>p. parentPath_of p = [])
                           (kept_paths ''blob'' items ignorePatterns maxDepth))
    \<and> ((\<forall>p\<in>set (kept_paths ''tree'' items ignorePatterns maxDepth). \<not> is_array_index p) \<longrightarrow>
          Object_values (dirs st) =
            filter (\<lambda>p. p \<noteq> ''__proto__'') (kept_paths ''tree'' items ignorePatterns maxDepth))"
proof (intro conjI ballI impI)
  note keys = buildFileTree_index(3) [OF assms]
  show "root st =
         map DirNode (filter (\<lambda>p. parentPath_of p = []) (Object_values (dirs st)))
         @ map FileNode (filter (\<lambda>p. parentPath_of p = [])
                           (kept_paths ''blob'' items ignorePatterns maxDepth))"
    by (rule buildFileTree_arrays(1) [OF assms(1)])
  show "Object_values (dirs st) =
            filter (\<lambda>p. p \<noteq> ''__proto__'') (kept_paths ''tree'' items ignorePatterns maxDepth)"
    if "\<forall>p\<in>set (kept_paths ''tree'' items ignorePatterns maxDepth). \<not> is_array_index p"
  proof -
    have "\<forall>p\<in>set (map fst (dirs st)). \<not> is_array_index p"
      unfolding keys using that by simp
    from Object_values_plain [OF this] show ?thesis
      unfolding keys .
  qed
  fix kv assume kv: "kv \<in> set (dirs st)"
  let ?below = "\<lambda>p. parentPath_of p = fst kv \<and> fst kv \<noteq> []"
  have "?below p \<Longrightarrow> p \<noteq> ''__proto__''" for p
    using parentPath_of_plain [of "''__proto__''"] by auto
  then have "filter ?below (filter (\<lambda>p. p \<noteq> ''__proto__'')
                 (kept_paths ''tree'' items ignorePatterns maxDepth)) =
             filter ?below (kept_paths ''tree'' items ignorePatterns maxDepth)"
    by (auto intro: filter_cong)
  then have "filter ?below (Object_values (dirs st)) =
             filter ?below (kept_paths ''tree'' items ignorePatterns maxDepth)"
    unfolding Object_values_below keys .
  with buildFileTree_arrays(2) [OF assms(1) index_lookup [OF assms(1) kv]]
  show "snd kv =
              map DirNode (filter ?below (kept_paths ''tree'' items ignorePatterns maxDepth))
              @ map FileNode (filter ?below (kept_paths ''blob'' items ignorePatterns maxDepth))"
    by simp
qed


theorem children_keep_input_order_within_kind_witness:
  "[DirNode ''a/d'', FileNode ''a/f''] =
     map DirNode (filter (\<lambda>p. parentPath_of p = ''a'' \<and> ''a'' \<noteq> [])
        (kept_paths ''tree''
           [\<lparr>item_path = ''a'', item_type = ''tree''\<rparr>, \<lparr>item_path = ''a/f'', item_type = ''blob''\<rparr>,
            \<lparr>item_path = ''a/d'', item_type = ''tree''\<rparr>] [] (- 1)))
     @ map FileNode (filter (\<lambda>p. parentPath_of p = ''a'' \<and> ''a'' \<noteq> [])
        (kept_paths ''blob''
           [\<lparr>item_path = ''a'', item_type = ''tree''\<rparr>, \<lparr>item_path = ''a/f'', item_type = ''blob''\<rparr>,
            \<lparr>item_path = ''a/d'', item_type = ''tree''\<rparr>] [] (- 1)))"
proof -
  let ?items = "[\<lparr>item_path = ''a'', item_type = ''tree''\<rparr>, \<lparr>item_path = ''a/f'', item_type = ''blob''\<rparr>,
            \<lparr>item_path = ''a/d'', item_type = ''tree''\<rparr>]"
  have h: "buildFileTree ?items [] (- 1) =
     Inr \<lparr>root = [DirNode ''a''],
          dirs = [(''a'', [DirNode ''a/d'', FileNode ''a/f'']), (''a/d'', [])], proto = False, polluted = False\<rparr>"
    by code_simp
  have d: "distinct (kept_paths ''tree'' ?items [] (- 1))"
    by code_simp
  from children_keep_input_order_within_kind [OF h d]
  have "\<forall>kv\<in>set [(''a'', [DirNode ''a/d'', FileNode ''a/f'']), (''a/d'', [])].
            snd kv =
              map DirNode (filter (\<lambda>p. parentPath_of p = fst kv \<and> fst kv \<noteq> [])
                             (kept_paths ''tree'' ?items [] (- 1)))
              @ map FileNode (filter (\<lambda>p. parentPath_of p = fst kv \<and> fst kv \<noteq> [])
                                (kept_paths ''blob'' ?items [] (- 1)))"
    by simp
  then show ?thesis by simp
qed

subsection \<open>Orphans\<close>

lemma buildFileTree_total:
  assumes "\<forall>item\<in>set items. \<exists>b. shouldIgnore (item_path item) pats = Inr b"
    and "''__proto__'' \<notin> set (kept_paths ''tree'' items pats d)"
  shows "\<exists>st. buildFileTree items pats d = Inr st"
proof -
  have ok: "\<forall>item\<in>set (filter P items). \<exists>b. not_ignored pats item = Inr b" for P
    using assms(1) by (auto simp: not_ignored_def)
  obtain trees where
    t: "filter_js (not_ignored pats) (filter (\<lambda>item. item_type item = ''tree'') items) = Inr trees"
    using filter_js_total [OF ok] by blast
  obtain blobs where
    b: "filter_js (not_ignored pats) (filter (\<lambda>item. item_type item = ''blob'') items) = Inr blobs"
    using filter_js_total [OF ok] by blast
  let ?st1 = "foldl (create_dir d) init_state trees"
  have "item_path item \<in> set (kept_paths ''tree'' items pats d)"
    if "item \<in> set trees" "\<not> too_deep d (item_path item)" for item
    using that unfolding kept_paths_filter [OF t, of d, symmetric] by auto
  then have "\<not> proto ?st1"
    using assms(2) by (fastforce simp: foldl_create_dir_proto init_state_def)
  from attach_all_total [OF this] obtain st2 where
    w: "forEach_js wire_dir (Object_values (dirs ?st1)) ?st1 = Inr st2" and "\<not> proto st2"
    unfolding wire_all by blast
  from attach_all_total [OF this(2)] obtain st3 where
    "forEach_js (add_file d) blobs st2 = Inr st3"
    unfolding add_all by blast
  with t b w show ?thesis
    by (simp add: buildFileTree_def)
qed

lemma shouldIgnore_no_rules: "\<exists>b. shouldIgnore p [] = Inr b"
  by (auto simp: shouldIgnore_def)

lemma node_in_root:
  assumes "buildFileTree items pats d = Inr st" and "n \<in> set (root st)"
  shows "parentPath_of (node_path n) = []"
  using assms(2) unfolding buildFileTree_arrays(1) [OF assms(1)] by auto

lemma node_in_children:
  assumes "buildFileTree items pats d = Inr st" and "kv \<in> set (dirs st)" and "n \<in> set (snd kv)"
  shows "parentPath_of (node_path n) = fst kv"
  using assms(3) buildFileTree_arrays(2) [OF assms(1) index_lookup [OF assms(1,2)]] by auto

lemma orphans_in_no_array:
  assumes "buildFileTree items pats d = Inr st" and "parentPath_of p \<noteq> []"
    and "parentPath_of p \<notin> set (map fst (dirs st))"
  shows "\<forall>n\<in>set (root st). node_path n \<noteq> p"
    and "\<forall>kv\<in>set (dirs st). \<forall>n\<in>set (snd kv). node_path n \<noteq> p"
proof -
  show "\<forall>n\<in>set (root st). node_path n \<noteq> p"
    using node_in_root [OF assms(1)] assms(2) by auto
  show "\<forall>kv\<in>set (dirs st). \<forall>n\<in>set (snd kv). node_path n \<noteq> p"
    using node_in_children [OF assms(1)] assms(3) by force
qed

text \<open>
  Claim C5 says that a node whose parent path is not empty and is absent from the
  directory index is dropped, neither attached anywhere nor an error.  For the single
  file entry \<^verbatim>\<open>a/b.txt\<close> that is what happens: the forest is empty.  But the index is
  a plain object, and \<^verbatim>\<open>map[parentPath]\<close> also finds what the object inherits.  With a
  directory \<^verbatim>\<open>__proto__\<close> in the listing, a file \<^verbatim>\<open>path/x.txt\<close> whose directory is not
  in the index (never listed, or listed and ignored by the rule \<^verbatim>\<open>path\<close>) makes the
  builder throw a \<^verbatim>\<open>TypeError\<close>; and a file \<^verbatim>\<open>__proto__/x.txt\<close> whose directory is not
  in the index is pushed onto \<^verbatim>\<open>Object.prototype.children\<close>.
\<close>

theorem orphan_below_inherited_name:
  "buildFileTree [\<lparr>item_path = ''a/b.txt'', item_type = ''blob''\<rparr>] [] (- 1) =
     Inr \<lparr>root = [], dirs = [], proto = False, polluted = False\<rparr>
   \<and> forest_of \<lparr>root = [], dirs = [], proto = False, polluted = False\<rparr> = Some []
   \<and> buildFileTree
        [\<lparr>item_path = ''__proto__'', item_type = ''tree''\<rparr>,
         \<lparr>item_path = ''path/x.txt'', item_type = ''blob''\<rparr>] [] (- 1) = Inl TypeError
   \<and> buildFileTree
        [\<lparr>item_path = ''__proto__'', item_type = ''tree''\<rparr>,
         \<lparr>item_path = ''path'', item_type = ''tree''\<rparr>,
         \<lparr>item_path = ''path/x.txt'', item_type = ''blob''\<rparr>] [''path''] (- 1) = Inl TypeError
   \<and> buildFileTree [\<lparr>item_path = ''__proto__/x.txt'', item_type = ''blob''\<rparr>] [] (- 1) =
       Inr \<lparr>root = [], dirs = [], proto = False, polluted = True\<rparr>"
proof -
  have a: "buildFileTree [\<lparr>item_path = ''a/b.txt'', item_type = ''blob''\<rparr>] [] (- 1) =
     Inr \<lparr>root = [], dirs = [], proto = False, polluted = False\<rparr>"
    by code_simp
  have b: "forest_of \<lparr>root = [], dirs = [], proto = False, polluted = False\<rparr> = Some []"
    by code_simp
  have c: "buildFileTree
        [\<lparr>item_path = ''__proto__'', item_type = ''tree''\<rparr>,
         \<lparr>item_path = ''path/x.txt'', item_type = ''blob''\<rparr>] [] (- 1) = Inl TypeError"
    by code_simp
  have d: "buildFileTree
        [\<lparr>item_path = ''__proto__'', item_type = ''tree''\<rparr>,
         \<lparr>item_path = ''path'', item_type = ''tree''\<rparr>,
         \<lparr>item_path = ''path/x.txt'', item_type = ''blob''\<rparr>] [''path''] (- 1) = Inl TypeError"
    by code_simp
  have e: "buildFileTree [\<lparr>item_path = ''__proto__/x.txt'', item_type = ''blob''\<rparr>] [] (- 1) =
       Inr \<lparr>root = [], dirs = [], proto = False, polluted = True\<rparr>"
    by code_simp
  from a b c d e show ?thesis by blast
qed

subsection \<open>Depth\<close>

lemma length_split_on: "length (split_on c s) = Suc (length (filter (\<lambda>x. x = c) s))"
proof (induction s)
  case Nil
  show ?case by simp
next
  case (Cons x s)
  obtain y ys where "split_on c s = y # ys"
    using split_on_not_Nil [of c s] by (cases "split_on c s") auto
  with Cons show ?case by auto
qed

lemma root_members:
  assumes "buildFileTree items pats d = Inr st"
  shows "set (root st) =
           DirNode ` {p \<in> set (kept_paths ''tree'' items pats d).
                        p \<noteq> ''__proto__'' \<and> parentPath_of p = []}
           \<union> FileNode ` {p \<in> set (kept_paths ''blob'' items pats d). parentPath_of p = []}"
  unfolding buildFileTree_arrays(1) [OF assms]
  using buildFileTree_index(1) [OF assms]
  by (auto simp: set_Object_values)

lemma children_members:
  assumes "buildFileTree items pats d = Inr st" and "kv \<in> set (dirs st)"
  shows "set (snd kv) =
           DirNode ` {p \<in> set (kept_paths ''tree'' items pats d).
                        parentPath_of p = fst kv \<and> fst kv \<noteq> []}
           \<union> FileNode ` {p \<in> set (kept_paths ''blob'' items pats d).
                           parentPath_of p = fst kv \<and> fst kv \<noteq> []}"
proof -
  have np: "parentPath_of p = fst kv \<and> fst kv \<noteq> [] \<Longrightarrow> p \<noteq> ''__proto__''" for p
    using parentPath_of_plain [of "''__proto__''"] by auto
  show ?thesis
    unfolding buildFileTree_arrays(2) [OF assms(1) index_lookup [OF assms]]
    using buildFileTree_index(1) [OF assms(1)] np
    by (auto simp: set_Object_values)
qed

text \<open>
  Claim C6.  The depth of a path is the number of its segments between slashes, one
  more than its slashes, and an entry is too deep when \<^verbatim>\<open>maxDepth\<close> is not \<open>-1\<close> and
  the depth exceeds it.  Both loops apply this test: the keys of the index are the kept
  directory paths, and the members of the top-level array and of every children array
  are exactly the kept directories and kept files with that parent, where kept means
  of that type, not ignored and not too deep.  For \<^verbatim>\<open>a\<close>, \<^verbatim>\<open>a/b\<close> (directories) and
  \<^verbatim>\<open>a/b/c.txt\<close> (file) with \<^verbatim>\<open>maxDepth = 1\<close> the result is the one directory \<^verbatim>\<open>a\<close>
  without children.
\<close>

theorem depth_bound:
  "depth_of p = Suc (length (filter (\<lambda>c. c = CHR ''/'') p))
   \<and> too_deep maxDepth p = (maxDepth \<noteq> - 1 \<and> int (depth_of p) > maxDepth)
   \<and> (buildFileTree items ignorePatterns maxDepth = Inr st \<longrightarrow>
        set (map fst (dirs st)) =
          set (kept_paths ''tree'' items ignorePatterns maxDepth) - {''__proto__''}
        \<and> set (root st) =
            DirNode ` {p \<in> set (kept_paths ''tree'' items ignorePatterns maxDepth).
                         p \<noteq> ''__proto__'' \<and> parentPath_of p = []}
            \<union> FileNode ` {p \<in> set (kept_paths ''blob'' items ignorePatterns maxDepth).
                            parentPath_of p = []}
        \<and> (\<forall>kv\<in>set (dirs st).
              set (snd kv) =
                DirNode ` {p \<in> set (kept_paths ''tree'' items ignorePatterns maxDepth).
                             parentPath_of p = fst kv \<and> fst kv \<noteq> []}
                \<union> FileNode ` {p \<in> set (kept_paths ''blob'' items ignorePatterns maxDepth).
                                parentPath_of p = fst kv \<and> fst kv \<noteq> []}))
   \<and> buildFileTree
        [\<lparr>item_path = ''a'', item_type = ''tree''\<rparr>, \<lparr>item_path = ''a/b'', item_type = ''tree''\<rparr>,
         \<lparr>item_path = ''a/b/c.txt'', item_type = ''blob''\<rparr>] [] 1 =
       Inr \<lparr>root = [DirNode ''a''], dirs = [(''a'', [])], proto = False, polluted = False\<rparr>
   \<and> forest_of \<lparr>root = [DirNode ''a''], dirs = [(''a'', [])], proto = False, polluted = False\<rparr> =
       Some [FileTree ''a'' ''dir'' (Some [])]"
proof (intro conjI impI ballI)
  show "depth_of p = Suc (length (filter (\<lambda>c. c = CHR ''/'') p))"
    by (simp add: depth_of_def length_split_on)
  show "too_deep maxDepth p = (maxDepth \<noteq> - 1 \<and> int (depth_of p) > maxDepth)"
    by (simp add: too_deep_def)
  show "buildFileTree
        [\<lparr>item_path = ''a'', item_type = ''tree''\<rparr>, \<lparr>item_path = ''a/b'', item_type = ''tree''\<rparr>,
         \<lparr>item_path = ''a/b/c.txt'', item_type = ''blob''\<rparr>] [] 1 =
       Inr \<lparr>root = [DirNode ''a''], dirs = [(''a'', [])], proto = False, polluted = False\<rparr>"
    by code_simp
  show "forest_of \<lparr>root = [DirNode ''a''], dirs = [(''a'', [])], proto = False, polluted = False\<rparr> =
       Some [FileTree ''a'' ''dir'' (Some [])]"
    by code_simp
next
  assume h: "buildFileTree items ignorePatterns maxDepth = Inr st"
  show "set (map fst (dirs st)) =
          set (kept_paths ''tree'' items ignorePatterns maxDepth) - {''__proto__''}"
    by (rule buildFileTree_index(1) [OF h])
  show "set (root st) =
            DirNode ` {p \<in> set (kept_paths ''tree'' items ignorePatterns maxDepth).
                         p \<noteq> ''__proto__'' \<and> parentPath_of p = []}
            \<union> FileNode ` {p \<in> set (kept_paths ''blob'' items ignorePatterns maxDepth).
                            parentPath_of p = []}"
    by (rule root_members [OF h])
  fix kv assume "kv \<in> set (dirs st)"
  then show "set (snd kv) =
                DirNode ` {p \<in> set (kept_paths ''tree'' items ignorePatterns maxDepth).
                             parentPath_of p = fst kv \<and> fst kv \<noteq> []}
                \<union> FileNode ` {p \<in> set (kept_paths ''blob'' items ignorePatterns maxDepth).
                                parentPath_of p = fst kv \<and> fst kv \<noteq> []}"
    by (rule children_members [OF h])
qed

theorem depth_bound_witness:
  "set [DirNode ''a'', FileNode ''r.md''] =
     DirNode ` {p \<in> set (kept_paths ''tree''
                   [\<lparr>item_path = ''a'', item_type = ''tree''\<rparr>, \<lparr>item_path = ''a/b'', item_type = ''tree''\<rparr>,
                    \<lparr>item_path = ''a/c.txt'', item_type = ''blob''\<rparr>, \<lparr>item_path = ''r.md'', item_type = ''blob''\<rparr>]
                   [] 1).
                 p \<noteq> ''__proto__'' \<and> parentPath_of p = []}
     \<union> FileNode ` {p \<in> set (kept_paths ''blob''
                   [\<lparr>item_path = ''a'', item_type = ''tree''\<rparr>, \<lparr>item_path = ''a/b'', item_type = ''tree''\<rparr>,
                    \<lparr>item_path = ''a/c.txt'', item_type = ''blob''\<rparr>, \<lparr>item_path = ''r.md'', item_type = ''blob''\<rparr>]
                   [] 1).
                 parentPath_of p = []}"
proof -
  let ?items = "[\<lparr>item_path = ''a'', item_type = ''tree''\<rparr>, \<lparr>item_path = ''a/b'', item_type = ''tree''\<rparr>,
                    \<lparr>item_path = ''a/c.txt'', item_type = ''blob''\<rparr>, \<lparr>item_path = ''r.md'', item_type = ''blob''\<rparr>]"
  have h: "buildFileTree ?items [] 1 =
      Inr \<lparr>root = [DirNode ''a'', FileNode ''r.md''], dirs = [(''a'', [])], proto = False, polluted = False\<rparr>"
    by code_simp
  from depth_bound [of _ 1 ?items "[]" "\<lparr>root = [DirNode ''a'', FileNode ''r.md''], dirs = [(''a'', [])], proto = False, polluted = False\<rparr>"] h
  show ?thesis by simp
qed

subsection \<open>When the prototype of all objects is written\<close>

lemma built_polluted:
  assumes "buildFileTree items pats d = Inr st" and "polluted st"
  shows "\<exists>p\<in>set (kept_paths ''tree'' items pats d) \<union> set (kept_paths ''blob'' items pats d).
           parentPath_of p = ''__proto__''"
proof -
  from assms(1) obtain trees st1 st2 where
    t: "filter_js (not_ignored pats) (filter (\<lambda>item. item_type item = ''tree'') items) = Inr trees" and
    st1: "st1 = foldl (create_dir d) init_state trees" and
    w: "forEach_js (\<lambda>x. attach (fst x) (snd x))
       (map (\<lambda>p. (DirNode p, parentPath_of p)) (Object_values (dirs st1))) st1 = Inr st2" and
    a: "forEach_js (\<lambda>x. attach (fst x) (snd x))
       (map (\<lambda>p. (FileNode p, parentPath_of p)) (kept_paths ''blob'' items pats d)) st2 = Inr st"
    by (rule buildFileTree_parts)
  have keys: "map fst (dirs st) = map fst (dirs st1)"
    using attach_all [OF w] attach_all [OF a] by simp
  have clean: "\<not> polluted st1"
    unfolding st1 by (simp add: foldl_create_dir_polluted init_state_def)
  from attach_all_polluted [OF a assms(2)]
  consider "polluted st2" | "\<exists>p\<in>set (kept_paths ''blob'' items pats d). parentPath_of p = ''__proto__''"
    by auto
  then show ?thesis
  proof cases
    case 1
    from attach_all_polluted [OF w 1] clean
    obtain p where "p \<in> set (Object_values (dirs st1))" "parentPath_of p = ''__proto__''"
      by auto
    moreover have "set (Object_values (dirs st1)) \<subseteq> set (kept_paths ''tree'' items pats d)"
      using buildFileTree_index(1) [OF assms(1)] unfolding keys
      by (auto simp: Object_values_def)
    ultimately show ?thesis by blast
  next
    case 2
    then show ?thesis by blast
  qed
qed

section \<open>Properties of the document assembler\<close>


lemma section_of_kept_file:
  "shouldIgnore p pats = Inr False \<Longrightarrow>
   generateFileContentMarkdown fetch p pats lineRules =
     (case fetch p of
        Inl e \<Rightarrow> failure_section p
      | Inr content \<Rightarrow>
          (case filteredContent lineRules content of
             Inl e \<Rightarrow> failure_section p
           | Inr filtered \<Rightarrow> code_section p filtered))"
  by (simp add: generateFileContentMarkdown_def)








end
